theory Spec2Isabelle
  imports Main
begin

section \<open>Python lists in a store\<close>

text \<open>
  The program works on Python lists of integers that are passed by reference and
  changed in place (\<^verbatim>\<open>insert\<close>, \<^verbatim>\<open>pop\<close>, \<^verbatim>\<open>reverse\<close>, \<^verbatim>\<open>extend\<close>, \<^verbatim>\<open>+=\<close>,
  item assignment). A list object is an address; the store maps every address to the
  current contents of the object and knows the next free address. Creating a list
  (a slice, a list display, \<^verbatim>\<open>[0]*k\<close>) takes the next free address.
  Python integers are unbounded, so list elements are of type \<^typ>\<open>int\<close>. Lengths are
  natural numbers, and so are the loop counts: every count that the program passes to
  \<^verbatim>\<open>xrange\<close> is a length, half a length, or a difference of lengths taken on the side
  of a comparison where it is not negative.
\<close>

type_synonym ref = nat

datatype error = IndexError | Unallocated

record store =
  heap :: "ref \<Rightarrow> int list"
  nxt :: ref

definition len :: "store \<Rightarrow> ref \<Rightarrow> nat" where
  "len s X = length (heap s X)"

definition put :: "ref \<Rightarrow> int list \<Rightarrow> store \<Rightarrow> store" where
  "put X xs s = s\<lparr>heap := (heap s)(X := xs)\<rparr>"

text \<open>A new list object with contents \<open>xs\<close>.\<close>

definition alloc :: "int list \<Rightarrow> store \<Rightarrow> ref \<times> store" where
  "alloc xs s = (nxt s, s\<lparr>heap := (heap s)(nxt s := xs), nxt := Suc (nxt s)\<rparr>)"

text \<open>\<^verbatim>\<open>X.insert(0,0)\<close>\<close>

definition insert0 :: "ref \<Rightarrow> store \<Rightarrow> store" where
  "insert0 X s = put X (0 # heap s X) s"

text \<open>\<^verbatim>\<open>X.pop(0)\<close> raises IndexError on an empty list.\<close>

definition pop0 :: "ref \<Rightarrow> store \<Rightarrow> error + store" where
  "pop0 X s = (case heap s X of [] \<Rightarrow> Inl IndexError | x # xs \<Rightarrow> Inr (put X xs s))"

text \<open>\<^verbatim>\<open>X.reverse()\<close>\<close>

definition reverse :: "ref \<Rightarrow> store \<Rightarrow> store" where
  "reverse X s = put X (rev (heap s X)) s"

text \<open>\<^verbatim>\<open>X.extend(ys)\<close> for a list display \<open>ys\<close>.\<close>

definition extend :: "ref \<Rightarrow> int list \<Rightarrow> store \<Rightarrow> store" where
  "extend X ys s = put X (heap s X @ ys) s"

text \<open>\<^verbatim>\<open>X += Y\<close> on lists extends \<open>X\<close> in place by the elements of \<open>Y\<close>.\<close>

definition iadd :: "ref \<Rightarrow> ref \<Rightarrow> store \<Rightarrow> store" where
  "iadd X Y s = put X (heap s X @ heap s Y) s"

text \<open>\<^verbatim>\<open>X[i]\<close> and \<^verbatim>\<open>X[i] = v\<close> for an index \<open>i \<ge> 0\<close>; both raise IndexError out of range.\<close>

definition getitem :: "store \<Rightarrow> ref \<Rightarrow> nat \<Rightarrow> error + int" where
  "getitem s X i = (if i < len s X then Inr (heap s X ! i) else Inl IndexError)"

definition setitem :: "ref \<Rightarrow> nat \<Rightarrow> int \<Rightarrow> store \<Rightarrow> error + store" where
  "setitem X i v s =
     (if i < len s X then Inr (put X ((heap s X)[i := v]) s) else Inl IndexError)"

section \<open>The helper routines of \<^verbatim>\<open>binary_mult.py\<close>\<close>

text \<open>
  The loop \<^verbatim>\<open>for i in xrange(0,n): X.insert(0,0)\<close>, which is the body of
  \<^verbatim>\<open>prepend_n_times\<close> and also the first loop of \<^verbatim>\<open>append_n_times\<close>.
\<close>

primrec insert0_loop :: "ref \<Rightarrow> nat \<Rightarrow> store \<Rightarrow> store" where
  "insert0_loop X 0 s = s"
| "insert0_loop X (Suc n) s = insert0_loop X n (insert0 X s)"

text \<open>\<^verbatim>\<open>prepend_n_times(X, n)\<close> (lines 128-136); it returns its argument \<open>X\<close>.\<close>

definition prepend_n_times :: "ref \<Rightarrow> nat \<Rightarrow> store \<Rightarrow> ref \<times> store" where
  "prepend_n_times X n s = (X, insert0_loop X n s)"

text \<open>
  \<^verbatim>\<open>append_n_times(X, n)\<close> (lines 115-125): a new list \<open>Y\<close> receives \<open>n\<close> zeros,
  \<open>X\<close> is extended in place by \<open>Y\<close>, and \<open>X\<close> itself is returned.
\<close>

definition append_n_times :: "ref \<Rightarrow> nat \<Rightarrow> store \<Rightarrow> ref \<times> store" where
  "append_n_times X n s =
     (let (Y, s1) = alloc [] s;
          s2 = insert0_loop Y n s1;
          s3 = iadd X Y s2
      in (X, s3))"

text \<open>\<^verbatim>\<open>pop_n_times(X, n)\<close> (lines 105-113).\<close>

primrec pop_n_times :: "ref \<Rightarrow> nat \<Rightarrow> store \<Rightarrow> error + ref \<times> store" where
  "pop_n_times X 0 s = Inr (X, s)"
| "pop_n_times X (Suc n) s =
     (case pop0 X s of Inl e \<Rightarrow> Inl e | Inr s1 \<Rightarrow> pop_n_times X n s1)"

text \<open>
  \<^verbatim>\<open>length_modifier(X, length)\<close> (lines 49-59). Both differences are taken on the
  side of the comparison where they are not negative. The routine returns nothing.
\<close>

definition length_modifier :: "ref \<Rightarrow> nat \<Rightarrow> store \<Rightarrow> error + store" where
  "length_modifier X length' s =
     (let X_length = len s X in
      if X_length < length' * 2
      then Inr (snd (prepend_n_times X (length' * 2 - X_length) s))
      else (case pop_n_times X (X_length - length' * 2) s of
              Inl e \<Rightarrow> Inl e | Inr (X', s1) \<Rightarrow> Inr s1))"

text \<open>\<^verbatim>\<open>pad_same_length(X, Y)\<close> (lines 61-77).\<close>

definition pad_same_length :: "ref \<Rightarrow> ref \<Rightarrow> store \<Rightarrow> store" where
  "pad_same_length X Y s =
     (let Length_X = len s X;
          Length_Y = len s Y;
          s1 = (if Length_X > Length_Y
                then snd (prepend_n_times Y (Length_X - Length_Y) s)
                else snd (prepend_n_times X (Length_Y - Length_X) s))
      in if len s1 X mod 2 \<noteq> 0 \<and> len s1 X \<noteq> 1
         then insert0 Y (insert0 X s1)
         else s1)"

text \<open>
  The loop of \<^verbatim>\<open>binary_add\<close> (lines 92-99), from position \<open>index\<close> of the live list
  \<open>X\<close> on. Line 94 reads \<^verbatim>\<open>Y[index]\<close> and then assigns \<^verbatim>\<open>result[index]\<close>; line 95
  reads \<^verbatim>\<open>Y[index]\<close> again. The loop yields the last carry.
\<close>

function add_loop :: "ref \<Rightarrow> ref \<Rightarrow> ref \<Rightarrow> nat \<Rightarrow> int \<Rightarrow> store \<Rightarrow> error + int \<times> store" where
  "add_loop X Y result index carry s =
     (if index < len s X then
        (let X_element = heap s X ! index in
         case getitem s Y index of Inl e \<Rightarrow> Inl e | Inr y \<Rightarrow>
         (case setitem result index ((y + X_element + carry) mod 2) s of Inl e \<Rightarrow> Inl e | Inr s1 \<Rightarrow>
         (case getitem s1 Y index of Inl e \<Rightarrow> Inl e | Inr y' \<Rightarrow>
            add_loop X Y result (index + 1) (if y' + X_element + carry > 1 then 1 else 0) s1)))
      else Inr (carry, s))"
  by pat_completeness auto
termination
  by (relation "measure (\<lambda>(X, Y, result, index, carry, s). len s X - index)")
     (auto simp: setitem_def put_def len_def split: if_splits)

declare add_loop.simps [simp del]

text \<open>
  \<^verbatim>\<open>binary_add(X, Y)\<close> (lines 79-103). The result list is a new object; the
  arguments are padded and reversed in place and stay so. The local \<^verbatim>\<open>temp\<close> is
  never used and is left out.
\<close>

definition binary_add :: "ref \<Rightarrow> ref \<Rightarrow> store \<Rightarrow> error + ref \<times> store" where
  "binary_add X Y s =
     (let s1 = pad_same_length X Y s;
          s2 = reverse X s1;
          s3 = reverse Y s2;
          (result, s4) = alloc (replicate (len s3 X) 0) s3
      in case add_loop X Y result 0 0 s4 of
           Inl e \<Rightarrow> Inl e
         | Inr (carry, s5) \<Rightarrow>
             (let s6 = (if carry = 1 then extend result [carry] s5 else s5);
                  s7 = reverse result s6
              in Inr (result, s7)))"

section \<open>\<^verbatim>\<open>binary_mult\<close>\<close>

text \<open>
  Lines 21-27 of \<^verbatim>\<open>binary_mult\<close>: the four slices are new list objects, then
  the four calls of \<^verbatim>\<open>pad_same_length\<close>. In Python 2 the division \<^verbatim>\<open>len(A)/2\<close> of
  integers rounds down.
\<close>

definition mult_prepare :: "ref \<Rightarrow> ref \<Rightarrow> store \<Rightarrow> ref \<times> ref \<times> ref \<times> ref \<times> store" where
  "mult_prepare A B s =
     (let (A1, s1) = alloc (take (len s A div 2) (heap s A)) s;
          (A2, s2) = alloc (drop (len s1 A div 2) (heap s1 A)) s1;
          (B1, s3) = alloc (take (len s2 B div 2) (heap s2 B)) s2;
          (B2, s4) = alloc (drop (len s3 B div 2) (heap s3 B)) s3;
          s5 = pad_same_length A1 B1 s4;
          s6 = pad_same_length A1 B2 s5;
          s7 = pad_same_length A2 B1 s6;
          s8 = pad_same_length A2 B2 s7
      in (A1, A2, B1, B2, s8))"

text \<open>Lines 34-44 of \<^verbatim>\<open>binary_mult\<close>: the four partial products are combined.\<close>

definition mult_combine ::
    "ref \<Rightarrow> ref \<Rightarrow> ref \<Rightarrow> ref \<Rightarrow> nat \<Rightarrow> store \<Rightarrow> error + ref \<times> store" where
  "mult_combine A1B1 A1B2 A2B1 A2B2 length' s =
     (case binary_add A1B2 A2B1 s of Inl e \<Rightarrow> Inl e | Inr (cross_sum, s1) \<Rightarrow>
      (let (Left, s2) = append_n_times A1B1 length' s1;
           (Middle, s3) = append_n_times cross_sum (length' div 2) s2;
           Right = A2B2
       in case binary_add Left Middle s3 of Inl e \<Rightarrow> Inl e | Inr (mid_sum, s4) \<Rightarrow>
          (case binary_add mid_sum Right s4 of Inl e \<Rightarrow> Inl e | Inr (final_sum, s5) \<Rightarrow>
          (case length_modifier final_sum length' s5 of Inl e \<Rightarrow> Inl e | Inr s6 \<Rightarrow>
             Inr (final_sum, s6)))))"

text \<open>
  \<^verbatim>\<open>binary_mult(A, B)\<close> (lines 11-46). A Python name always denotes a list object that
  exists; an address that was never allocated denotes no object, and the model answers
  a call on one with \<open>Unallocated\<close>. The base case reads \<^verbatim>\<open>A[0]\<close>, then \<^verbatim>\<open>B[0]\<close>,
  and returns a new one-element list.
\<close>

function binary_mult :: "ref \<Rightarrow> ref \<Rightarrow> store \<Rightarrow> error + ref \<times> store" where
  "binary_mult A B s =
     (if \<not> (A < nxt s \<and> B < nxt s) then Inl Unallocated
      else
        (let length' = len s A in
         if length' > 1 then
           (let (A1, A2, B1, B2, s1) = mult_prepare A B s in
            case binary_mult A1 B1 s1 of Inl e \<Rightarrow> Inl e | Inr (A1B1, s2) \<Rightarrow>
            (case binary_mult A1 B2 s2 of Inl e \<Rightarrow> Inl e | Inr (A1B2, s3) \<Rightarrow>
            (case binary_mult A2 B1 s3 of Inl e \<Rightarrow> Inl e | Inr (A2B1, s4) \<Rightarrow>
            (case binary_mult A2 B2 s4 of Inl e \<Rightarrow> Inl e | Inr (A2B2, s5) \<Rightarrow>
               mult_combine A1B1 A1B2 A2B1 A2B2 length' s5))))
         else
           (case getitem s A 0 of Inl e \<Rightarrow> Inl e | Inr a \<Rightarrow>
            (case getitem s B 0 of Inl e \<Rightarrow> Inl e | Inr b \<Rightarrow>
               Inr (alloc [a * b] s)))))"
  by pat_completeness auto

section \<open>What the routines compute, as functions on list contents\<close>

text \<open>
  The functions of this section are not in the source. They describe the contents of
  the lists that the routines produce, and the lemmas below prove that the routines in
  the store compute them.
\<close>

text \<open>
  The common length that \<^verbatim>\<open>pad_same_length\<close> produces when the longer list has length
  \<open>n\<close>: an odd length other than 1 is raised by one (line 75).
\<close>

definition evenup :: "nat \<Rightarrow> nat" where
  "evenup n = (if n mod 2 \<noteq> 0 \<and> n \<noteq> 1 then n + 1 else n)"

text \<open>
  The loop of \<^verbatim>\<open>binary_add\<close> on two lists read least significant bit first, with
  carry \<open>c\<close>: the sum bits and the last carry.
\<close>

fun add_bits :: "int list \<Rightarrow> int list \<Rightarrow> int \<Rightarrow> int list \<times> int" where
  "add_bits (x # xs) (y # ys) c =
     (let (r, c') = add_bits xs ys (if y + x + c > 1 then 1 else 0)
      in ((y + x + c) mod 2 # r, c'))"
| "add_bits _ _ c = ([], c)"

text \<open>
  A list with zeros prepended up to length \<open>q\<close>.
\<close>

definition padded :: "nat \<Rightarrow> int list \<Rightarrow> int list" where
  "padded q xs = replicate (q - length xs) 0 @ xs"

text \<open>
  The contents of the list that \<^verbatim>\<open>binary_add\<close> returns for arguments with contents
  \<open>xs\<close> and \<open>ys\<close>.
\<close>

definition add_list :: "int list \<Rightarrow> int list \<Rightarrow> int list" where
  "add_list xs ys =
     (let q = evenup (max (length xs) (length ys));
          (r, c) = add_bits (rev (padded q xs)) (rev (padded q ys)) 0
      in rev (r @ (if c = 1 then [c] else [])))"

text \<open>
  What \<^verbatim>\<open>length_modifier\<close> makes of contents \<open>xs\<close> for the target length \<open>k\<close>.
\<close>

definition fit :: "nat \<Rightarrow> int list \<Rightarrow> int list" where
  "fit k xs = (if length xs < k then replicate (k - length xs) 0 @ xs
               else drop (length xs - k) xs)"

text \<open>
  The contents of the list that lines 34-44 produce from the contents of the four
  partial products, for \<open>l = len(A)\<close>.
\<close>

definition combine_list :: "nat \<Rightarrow> int list \<Rightarrow> int list \<Rightarrow> int list \<Rightarrow> int list \<Rightarrow> int list" where
  "combine_list l p11 p12 p21 p22 =
     fit (l * 2)
       (add_list (add_list (p11 @ replicate l 0) (add_list p12 p21 @ replicate (l div 2) 0)) p22)"

text \<open>
  The lengths of \<open>A1\<close>, \<open>A2\<close>, \<open>B1\<close>, \<open>B2\<close> after the four calls of \<^verbatim>\<open>pad_same_length\<close>
  in lines 24-27, from the lengths of \<open>A\<close> and \<open>B\<close>. Each call takes the lengths that
  the calls before it have left.
\<close>

definition child_len :: "nat \<Rightarrow> nat \<Rightarrow> nat \<times> nat \<times> nat \<times> nat" where
  "child_len lA lB =
     (let a = lA div 2; a' = lA - a; b = lB div 2; b' = lB - b;
          q1 = evenup (max a b);
          q2 = evenup (max q1 b');
          q3 = evenup (max a' q1);
          q4 = evenup (max q3 q2)
      in (q2, q4, q3, q4))"

text \<open>
  The contents of the list that \<^verbatim>\<open>binary_mult\<close> returns, from the contents of \<open>A\<close> and
  \<open>B\<close>, whenever it returns (lemma \<open>binary_mult_refines\<close>).
\<close>

function mult_list :: "int list \<Rightarrow> int list \<Rightarrow> int list" where
  "mult_list a b =
     (if 1 < length a then
        (case child_len (length a) (length b) of (k1, k2, k3, k4) \<Rightarrow>
           combine_list (length a)
             (mult_list (padded k1 (take (length a div 2) a)) (padded k3 (take (length b div 2) b)))
             (mult_list (padded k1 (take (length a div 2) a)) (padded k4 (drop (length b div 2) b)))
             (mult_list (padded k2 (drop (length a div 2) a)) (padded k3 (take (length b div 2) b)))
             (mult_list (padded k2 (drop (length a div 2) a)) (padded k4 (drop (length b div 2) b))))
      else [hd a * hd b])"
  by pat_completeness auto

text \<open>The number that a list of bits denotes, most significant bit first.\<close>

definition bits_to_int :: "int list \<Rightarrow> int" where
  "bits_to_int xs = foldl (\<lambda>acc b. 2 * acc + b) 0 xs"

text \<open>A bit sequence: every element is 0 or 1.\<close>

definition bits :: "int list \<Rightarrow> bool" where
  "bits xs \<longleftrightarrow> set xs \<subseteq> {0, 1}"

text \<open>The store that holds the given lists at the addresses \<open>0, 1, \<dots>\<close> and nothing else.\<close>

definition store_of :: "int list list \<Rightarrow> store" where
  "store_of xss = \<lparr>heap = (\<lambda>i. if i < length xss then xss ! i else []), nxt = length xss\<rparr>"

text \<open>The \<open>n\<close>-bit representation of a number, most significant bit first.\<close>

definition int_to_bits :: "int \<Rightarrow> nat \<Rightarrow> int list" where
  "int_to_bits a n = map (\<lambda>i. (a div 2 ^ (n - 1 - i)) mod 2) [0..<n]"

text \<open>
  The recursive invocations that one invocation of \<^verbatim>\<open>binary_mult\<close> makes directly
  (lines 29-32): \<open>calls (A, B, s) (A', B', s')\<close> says that the invocation on \<open>A\<close>, \<open>B\<close>
  in store \<open>s\<close> invokes \<^verbatim>\<open>binary_mult\<close> on \<open>A'\<close>, \<open>B'\<close> in store \<open>s'\<close>. Each later
  call is made only after the earlier ones have returned.
\<close>

inductive calls :: "ref \<times> ref \<times> store \<Rightarrow> ref \<times> ref \<times> store \<Rightarrow> bool" where
  call1: "\<lbrakk>A < nxt s; B < nxt s; 1 < len s A; mult_prepare A B s = (A1, A2, B1, B2, s1)\<rbrakk>
          \<Longrightarrow> calls (A, B, s) (A1, B1, s1)"
| call2: "\<lbrakk>A < nxt s; B < nxt s; 1 < len s A; mult_prepare A B s = (A1, A2, B1, B2, s1);
           binary_mult A1 B1 s1 = Inr (A1B1, s2)\<rbrakk>
          \<Longrightarrow> calls (A, B, s) (A1, B2, s2)"
| call3: "\<lbrakk>A < nxt s; B < nxt s; 1 < len s A; mult_prepare A B s = (A1, A2, B1, B2, s1);
           binary_mult A1 B1 s1 = Inr (A1B1, s2); binary_mult A1 B2 s2 = Inr (A1B2, s3)\<rbrakk>
          \<Longrightarrow> calls (A, B, s) (A2, B1, s3)"
| call4: "\<lbrakk>A < nxt s; B < nxt s; 1 < len s A; mult_prepare A B s = (A1, A2, B1, B2, s1);
           binary_mult A1 B1 s1 = Inr (A1B1, s2); binary_mult A1 B2 s2 = Inr (A1B2, s3);
           binary_mult A2 B1 s3 = Inr (A2B1, s4)\<rbrakk>
          \<Longrightarrow> calls (A, B, s) (A2, B2, s4)"

text \<open>
  Every list that exists in \<open>s\<close> exists in \<open>s'\<close> with the same contents.
\<close>

definition frame :: "store \<Rightarrow> store \<Rightarrow> bool" where
  "frame s s' \<longleftrightarrow> nxt s \<le> nxt s' \<and> (\<forall>z<nxt s. heap s' z = heap s z)"

section \<open>The routines in terms of list contents\<close>

subsection \<open>Store operations and \<^verbatim>\<open>pad_same_length\<close>\<close>

lemma len_put: "len (put X xs s) Z = (if Z = X then length xs else len s Z)"
  by (simp add: len_def put_def)

lemma heap_put [simp]: "heap (put X xs s) = (heap s)(X := xs)"
  by (simp add: put_def)

lemma nxt_put [simp]: "nxt (put X xs s) = nxt s"
  by (simp add: put_def)

lemma put_put [simp]: "put X xs (put X ys s) = put X xs s"
  by (simp add: put_def)

lemma put_same [simp]: "put X (heap s X) s = s"
  by (simp add: put_def)

lemma put_commute: "X \<noteq> Y \<Longrightarrow> put X xs (put Y ys s) = put Y ys (put X xs s)"
  by (simp add: put_def fun_upd_twist)

lemma insert0_loop_eq: "insert0_loop X n s = put X (replicate n 0 @ heap s X) s"
proof (induction n arbitrary: s)
  case 0
  show ?case by simp
next
  case (Suc n)
  show ?case by (simp add: Suc.IH insert0_def replicate_app_Cons_same)
qed

lemma pad_same_length_eq:
  assumes "X \<noteq> Y"
  shows "pad_same_length X Y s =
           put Y (replicate (evenup (max (len s X) (len s Y)) - len s Y) 0 @ heap s Y)
             (put X (replicate (evenup (max (len s X) (len s Y)) - len s X) 0 @ heap s X) s)"
proof (cases "len s X > len s Y")
  case True
  then show ?thesis using assms
    apply (simp add: pad_same_length_def Let_def prepend_n_times_def insert0_loop_eq len_put insert0_def evenup_def max_def)
    apply (auto simp: len_def put_commute replicate_app_Cons_same Suc_diff_le)
    done
next
  case False
  then show ?thesis using assms
    apply (simp add: pad_same_length_def Let_def prepend_n_times_def insert0_loop_eq len_put insert0_def evenup_def max_def)
    apply (auto simp: len_def put_commute replicate_app_Cons_same Suc_diff_le)
    done
qed

subsection \<open>\<^verbatim>\<open>binary_add\<close>\<close>

lemma add_loop_eq:
  assumes "R \<noteq> X" "R \<noteq> Y" "len s Y = len s X" "len s R = len s X" "i \<le> len s X"
  shows "add_loop X Y R i c s =
           Inr (snd (add_bits (drop i (heap s X)) (drop i (heap s Y)) c),
                put R (take i (heap s R) @ fst (add_bits (drop i (heap s X)) (drop i (heap s Y)) c)) s)"
  using assms
proof (induction X Y R i c s rule: add_loop.induct)
  case (1 X Y R i c s)
  show ?case
  proof (cases "i < len s X")
    case False
    with "1.prems" have "i = len s X" by simp
    with "1.prems" show ?thesis
      by (subst add_loop.simps) (simp add: len_def)
  next
    case True
    let ?x = "heap s X ! i" and ?y = "heap s Y ! i"
    let ?v = "(?y + ?x + c) mod 2"
    let ?c = "if ?y + ?x + c > 1 then 1 else (0::int)"
    let ?s1 = "put R ((heap s R)[i := ?v]) s"
    have g: "getitem s Y i = Inr ?y"
      using True "1.prems" by (simp add: getitem_def)
    have st: "setitem R i ?v s = Inr ?s1"
      using True "1.prems" by (simp add: setitem_def)
    have g1: "getitem ?s1 Y i = Inr ?y"
      using True "1.prems" by (simp add: getitem_def len_put)
    have lens: "len ?s1 Y = len ?s1 X" "len ?s1 R = len ?s1 X" "i + 1 \<le> len ?s1 X"
      using True "1.prems" by (simp_all add: len_put) (simp add: len_def)
    have ih: "add_loop X Y R (i + 1) ?c ?s1 =
        Inr (snd (add_bits (drop (i + 1) (heap ?s1 X)) (drop (i + 1) (heap ?s1 Y)) ?c),
             put R (take (i + 1) (heap ?s1 R) @
                    fst (add_bits (drop (i + 1) (heap ?s1 X)) (drop (i + 1) (heap ?s1 Y)) ?c)) ?s1)"
      using "1.IH"[OF True refl g st g1 "1.prems"(1,2) lens] .
    have dx: "drop i (heap s X) = ?x # drop (i + 1) (heap s X)"
      using True by (simp add: len_def Cons_nth_drop_Suc)
    have dy: "drop i (heap s Y) = ?y # drop (i + 1) (heap s Y)"
      using True "1.prems" by (simp add: len_def Cons_nth_drop_Suc)
    have tk: "take (i + 1) ((heap s R)[i := ?v]) = take i (heap s R) @ [?v]"
      using True "1.prems" by (simp add: len_def take_Suc_conv_app_nth)
    have hx: "heap ?s1 X = heap s X" "heap ?s1 Y = heap s Y" "heap ?s1 R = (heap s R)[i := ?v]"
      using "1.prems" by simp_all
    show ?thesis
      apply (subst add_loop.simps)
      apply (simp only: True if_True Let_def g st g1 sum.case ih hx dx dy tk)
      apply (simp add: case_prod_unfold Let_def)
      done
  qed
qed

lemma evenup_ge: "n \<le> evenup n"
  by (simp add: evenup_def)

lemma length_padded: "length xs \<le> q \<Longrightarrow> length (padded q xs) = q"
  by (simp add: padded_def)

lemma pad_same_length_padded:
  "X \<noteq> Y \<Longrightarrow> pad_same_length X Y s =
     put Y (padded (evenup (max (len s X) (len s Y))) (heap s Y))
       (put X (padded (evenup (max (len s X) (len s Y))) (heap s X)) s)"
  by (simp add: pad_same_length_eq padded_def len_def)

lemma binary_add_eq:
  assumes "X \<noteq> Y" "X < nxt s" "Y < nxt s"
  shows "binary_add X Y s =
           Inr (nxt s,
                (put (nxt s) (add_list (heap s X) (heap s Y))
                  (put Y (rev (padded (evenup (max (len s X) (len s Y))) (heap s Y)))
                    (put X (rev (padded (evenup (max (len s X) (len s Y))) (heap s X))) s)))
                \<lparr>nxt := Suc (nxt s)\<rparr>)"
proof -
  let ?q = "evenup (max (len s X) (len s Y))"
  let ?px = "padded ?q (heap s X)" and ?py = "padded ?q (heap s Y)"
  have lx: "length ?px = ?q" and ly: "length ?py = ?q"
    using evenup_ge[of "max (len s X) (len s Y)"] by (simp_all add: length_padded len_def)
  let ?s3 = "put Y (rev ?py) (put X (rev ?px) s)"
  have s3: "reverse Y (reverse X (pad_same_length X Y s)) = ?s3"
    using assms(1) by (simp add: pad_same_length_padded reverse_def put_commute)
  let ?s4 = "(put (nxt s) (replicate ?q 0) ?s3)\<lparr>nxt := Suc (nxt s)\<rparr>"
  have h4: "heap ?s4 X = rev ?px" "heap ?s4 Y = rev ?py" "heap ?s4 (nxt s) = replicate ?q 0"
    using assms by simp_all
  have l4: "len ?s4 X = ?q" "len ?s4 Y = ?q" "len ?s4 (nxt s) = ?q"
    using h4 lx ly by (simp_all add: len_def)
  have ne: "nxt s \<noteq> X" "nxt s \<noteq> Y"
    using assms by simp_all
  have loop: "add_loop X Y (nxt s) 0 0 ?s4 =
      Inr (snd (add_bits (rev ?px) (rev ?py) 0),
           put (nxt s) (fst (add_bits (rev ?px) (rev ?py) 0)) ?s4)"
    using add_loop_eq[OF ne, of ?s4 0 0] l4 by (simp only: h4 drop_0 take_0 append_Nil le0)
  have al: "alloc (replicate (len ?s3 X) 0) ?s3 = (nxt s, ?s4)"
    using assms lx by (simp add: alloc_def put_def len_def)
  have fin: "reverse (nxt s)
       (if snd (add_bits (rev ?px) (rev ?py) 0) = 1
        then extend (nxt s) [snd (add_bits (rev ?px) (rev ?py) 0)]
               (put (nxt s) (fst (add_bits (rev ?px) (rev ?py) 0)) ?s4)
        else put (nxt s) (fst (add_bits (rev ?px) (rev ?py) 0)) ?s4) =
       (put (nxt s) (add_list (heap s X) (heap s Y)) ?s3)\<lparr>nxt := Suc (nxt s)\<rparr>"
    by (simp add: reverse_def extend_def add_list_def alloc_def put_def len_def
          case_prod_unfold Let_def)
  show ?thesis
    unfolding binary_add_def Let_def s3
    by (simp only: al prod.case loop sum.case fin)
qed

subsection \<open>\<^verbatim>\<open>append_n_times\<close>, \<^verbatim>\<open>pop_n_times\<close>, \<^verbatim>\<open>length_modifier\<close> and lines 34-44\<close>

lemma length_fit [simp]: "length (fit k xs) = k"
  by (simp add: fit_def)

lemma append_n_times_eq:
  assumes "X < nxt s"
  shows "append_n_times X n s =
           (X, (put (nxt s) (replicate n 0) (put X (heap s X @ replicate n 0) s))
               \<lparr>nxt := Suc (nxt s)\<rparr>)"
  using assms
  by (simp add: append_n_times_def alloc_def insert0_loop_eq iadd_def put_def fun_upd_twist)

lemma pop_n_times_eq:
  "n \<le> len s X \<Longrightarrow> pop_n_times X n s = Inr (X, put X (drop n (heap s X)) s)"
proof (induction n arbitrary: s)
  case 0
  show ?case by simp
next
  case (Suc n)
  then obtain x xs where h: "heap s X = x # xs"
    by (cases "heap s X") (auto simp: len_def)
  with Suc.prems have "n \<le> len (put X xs s) X"
    by (simp add: len_put len_def)
  from Suc.IH[OF this] h show ?case
    by (simp add: pop0_def)
qed

lemma length_modifier_eq:
  "length_modifier X l s = Inr (put X (fit (l * 2) (heap s X)) s)"
  by (simp add: length_modifier_def Let_def prepend_n_times_def insert0_loop_eq
        pop_n_times_eq fit_def len_def)

lemma heap_nxt_upd [simp]: "heap (s\<lparr>nxt := n\<rparr>) = heap s"
  by simp

lemma len_nxt_upd [simp]: "len (s\<lparr>nxt := n\<rparr>) X = len s X"
  by (simp add: len_def)

lemma mult_combine_eq:
  assumes d: "r2 \<noteq> r3" "r1 \<noteq> r2" "r1 \<noteq> r3" "r4 \<noteq> r1" "r4 \<noteq> r2" "r4 \<noteq> r3"
    and v: "r1 < nxt s" "r2 < nxt s" "r3 < nxt s" "r4 < nxt s"
  shows "\<exists>s'. mult_combine r1 r2 r3 r4 l s = Inr (nxt s + 4, s') \<and> nxt s' = nxt s + 5 \<and>
           heap s' (nxt s + 4) = combine_list l (heap s r1) (heap s r2) (heap s r3) (heap s r4) \<and>
           (\<forall>z<nxt s. z \<noteq> r1 \<longrightarrow> z \<noteq> r2 \<longrightarrow> z \<noteq> r3 \<longrightarrow> z \<noteq> r4 \<longrightarrow> heap s' z = heap s z)"
proof -
  obtain s1 where 1: "binary_add r2 r3 s = Inr (nxt s, s1)" and n1: "nxt s1 = Suc (nxt s)"
    and h1: "heap s1 (nxt s) = add_list (heap s r2) (heap s r3)"
    and f1: "\<And>z. z \<noteq> r2 \<Longrightarrow> z \<noteq> r3 \<Longrightarrow> z \<noteq> nxt s \<Longrightarrow> heap s1 z = heap s z"
    using binary_add_eq[OF d(1) v(2,3)] by simp
  obtain s2 where 2: "append_n_times r1 l s1 = (r1, s2)" and n2: "nxt s2 = Suc (Suc (nxt s))"
    and h2: "heap s2 r1 = heap s r1 @ replicate l 0"
    and f2: "\<And>z. z \<noteq> r1 \<Longrightarrow> z \<noteq> Suc (nxt s) \<Longrightarrow> heap s2 z = heap s1 z"
    using append_n_times_eq[of r1 s1 l] v(1) n1 d f1[of r1] by simp
  obtain s3 where 3: "append_n_times (nxt s) (l div 2) s2 = (nxt s, s3)"
    and n3: "nxt s3 = Suc (Suc (Suc (nxt s)))"
    and h3: "heap s3 (nxt s) = add_list (heap s r2) (heap s r3) @ replicate (l div 2) 0"
    and f3: "\<And>z. z \<noteq> nxt s \<Longrightarrow> z \<noteq> Suc (Suc (nxt s)) \<Longrightarrow> heap s3 z = heap s2 z"
    using append_n_times_eq[of "nxt s" s2 "l div 2"] n2 h1 f2[of "nxt s"] v(1) by simp
  have v3: "r1 < nxt s3" "nxt s < nxt s3" "r1 \<noteq> nxt s"
    using v n3 by simp_all
  obtain s4 where 4: "binary_add r1 (nxt s) s3 = Inr (Suc (Suc (Suc (nxt s))), s4)"
    and n4: "nxt s4 = Suc (Suc (Suc (Suc (nxt s))))"
    and h4: "heap s4 (Suc (Suc (Suc (nxt s)))) = add_list (heap s3 r1) (heap s3 (nxt s))"
    and f4: "\<And>z. z \<noteq> r1 \<Longrightarrow> z \<noteq> nxt s \<Longrightarrow> z \<noteq> Suc (Suc (Suc (nxt s))) \<Longrightarrow> heap s4 z = heap s3 z"
    using binary_add_eq[OF v3(3) v3(1,2)] n3 by simp
  have v4: "Suc (Suc (Suc (nxt s))) < nxt s4" "r4 < nxt s4" "Suc (Suc (Suc (nxt s))) \<noteq> r4"
    using v n4 by simp_all
  obtain s5 where 5: "binary_add (Suc (Suc (Suc (nxt s)))) r4 s4 = Inr (Suc (Suc (Suc (Suc (nxt s)))), s5)"
    and n5: "nxt s5 = Suc (Suc (Suc (Suc (Suc (nxt s)))))"
    and h5: "heap s5 (Suc (Suc (Suc (Suc (nxt s))))) = add_list (heap s4 (Suc (Suc (Suc (nxt s))))) (heap s4 r4)"
    and f5: "\<And>z. z \<noteq> Suc (Suc (Suc (nxt s))) \<Longrightarrow> z \<noteq> r4 \<Longrightarrow> z \<noteq> Suc (Suc (Suc (Suc (nxt s)))) \<Longrightarrow> heap s5 z = heap s4 z"
    using binary_add_eq[OF v4(3) v4(1,2)] n4 by simp
  let ?s6 = "put (Suc (Suc (Suc (Suc (nxt s))))) (fit (l * 2) (heap s5 (Suc (Suc (Suc (Suc (nxt s))))))) s5"
  have r1: "heap s3 r1 = heap s r1 @ replicate l 0"
    using f3[of r1] h2 v by simp
  have r4: "heap s4 r4 = heap s r4"
    using f4[of r4] f3[of r4] f2[of r4] f1[of r4] d v by simp
  have res: "mult_combine r1 r2 r3 r4 l s = Inr (nxt s + 4, ?s6)"
    by (simp add: mult_combine_def 1 2 3 4 5 length_modifier_eq)
  have frame: "heap ?s6 z = heap s z"
    if "z < nxt s" "z \<noteq> r1" "z \<noteq> r2" "z \<noteq> r3" "z \<noteq> r4" for z
    using that f5[of z] f4[of z] f3[of z] f2[of z] f1[of z] by simp
  show ?thesis
    using res n5 frame h5 h4 h3 r1 r4 by (auto simp: combine_list_def)
qed

subsection \<open>Lines 21-27: the slices and the four paddings\<close>

lemma padded_padded: "length xs \<le> q \<Longrightarrow> q \<le> q' \<Longrightarrow> padded q' (padded q xs) = padded q' xs"
  by (simp add: padded_def replicate_add[symmetric] del: replicate_add)

lemma heap_pad_same_length:
  "X \<noteq> Y \<Longrightarrow> heap (pad_same_length X Y s) =
     (heap s)(X := padded (evenup (max (length (heap s X)) (length (heap s Y)))) (heap s X),
              Y := padded (evenup (max (length (heap s X)) (length (heap s Y)))) (heap s Y))"
  by (simp add: pad_same_length_padded len_def)

lemma nxt_pad_same_length: "nxt (pad_same_length X Y s) = nxt s"
  by (simp add: pad_same_length_def Let_def prepend_n_times_def insert0_loop_eq insert0_def)

lemma four_pads:
  fixes s :: store
  assumes d: "A1 \<noteq> A2" "A1 \<noteq> B1" "A1 \<noteq> B2" "A2 \<noteq> B1" "A2 \<noteq> B2" "B1 \<noteq> B2"
  defines "q1 \<equiv> evenup (max (length (heap s A1)) (length (heap s B1)))"
  defines "q2 \<equiv> evenup (max q1 (length (heap s B2)))"
  defines "q3 \<equiv> evenup (max (length (heap s A2)) q1)"
  defines "q4 \<equiv> evenup (max q3 q2)"
  defines "s' \<equiv> pad_same_length A2 B2 (pad_same_length A2 B1
                    (pad_same_length A1 B2 (pad_same_length A1 B1 s)))"
  shows "heap s' = (heap s)(A1 := padded q2 (heap s A1), A2 := padded q4 (heap s A2),
                            B1 := padded q3 (heap s B1), B2 := padded q4 (heap s B2))"
proof -
  let ?s5 = "pad_same_length A1 B1 s"
  let ?s6 = "pad_same_length A1 B2 ?s5"
  let ?s7 = "pad_same_length A2 B1 ?s6"
  have ql: "length (heap s A1) \<le> q1" "length (heap s B1) \<le> q1" "q1 \<le> q2"
      "length (heap s B2) \<le> q2" "length (heap s A2) \<le> q3" "q1 \<le> q3" "q3 \<le> q4" "q2 \<le> q4"
    unfolding q1_def q2_def q3_def q4_def
    by (rule order_trans[OF max.cobounded1 evenup_ge] order_trans[OF max.cobounded2 evenup_ge])+
  have h5: "heap ?s5 = (heap s)(A1 := padded q1 (heap s A1), B1 := padded q1 (heap s B1))"
    using d by (simp add: heap_pad_same_length q1_def)
  have l5: "length (heap ?s5 A1) = q1" "length (heap ?s5 B2) = length (heap s B2)"
      "length (heap ?s5 A2) = length (heap s A2)" "length (heap ?s5 B1) = q1"
    using d ql by (simp_all add: h5 length_padded)
  have h6: "heap ?s6 = (heap ?s5)(A1 := padded q2 (heap ?s5 A1), B2 := padded q2 (heap ?s5 B2))"
    by (simp only: heap_pad_same_length[OF d(3)] l5 q2_def)
  have l6: "length (heap ?s6 A2) = length (heap s A2)" "length (heap ?s6 B1) = q1"
      "length (heap ?s6 A1) = q2" "length (heap ?s6 B2) = q2"
    using d ql l5 by (simp_all add: h6 length_padded)
  have h7: "heap ?s7 = (heap ?s6)(A2 := padded q3 (heap ?s6 A2), B1 := padded q3 (heap ?s6 B1))"
    by (simp only: heap_pad_same_length[OF d(4)] l6 q3_def)
  have l7: "length (heap ?s7 A2) = q3" "length (heap ?s7 B2) = q2"
    using d ql l6 by (simp_all add: h7 length_padded)
  have h8: "heap s' = (heap ?s7)(A2 := padded q4 (heap ?s7 A2), B2 := padded q4 (heap ?s7 B2))"
    unfolding s'_def by (simp only: heap_pad_same_length[OF d(5)] l7 q4_def)
  have v1: "heap s' A1 = padded q2 (heap s A1)"
    using d ql by (simp add: h8 h7 h6 h5 padded_padded)
  have v2: "heap s' A2 = padded q4 (heap s A2)"
    using d ql by (simp add: h8 h7 h6 h5 padded_padded)
  have v3: "heap s' B1 = padded q3 (heap s B1)"
    using d ql by (simp add: h8 h7 h6 h5 padded_padded)
  have v4: "heap s' B2 = padded q4 (heap s B2)"
    using d ql by (simp add: h8 h7 h6 h5 padded_padded)
  have vo: "heap s' z = heap s z" if "z \<noteq> A1" "z \<noteq> A2" "z \<noteq> B1" "z \<noteq> B2" for z
    using that by (simp add: h8 h7 h6 h5)
  show ?thesis
  proof
    fix z
    show "heap s' z = ((heap s)(A1 := padded q2 (heap s A1), A2 := padded q4 (heap s A2),
                            B1 := padded q3 (heap s B1), B2 := padded q4 (heap s B2))) z"
      using v1 v2 v3 v4 vo[of z] d by (cases "z = A1"; cases "z = A2"; cases "z = B1"; cases "z = B2") simp_all
  qed
qed

lemma min_half: "min (n::nat) (n div 2) = n div 2"
  by simp

lemma mult_prepare_eq:
  assumes "A < nxt s" "B < nxt s"
  shows "mult_prepare A B s =
    (case child_len (len s A) (len s B) of (k1, k2, k3, k4) \<Rightarrow>
      (nxt s, Suc (nxt s), Suc (Suc (nxt s)), Suc (Suc (Suc (nxt s))),
       s\<lparr>heap := (heap s)
            (nxt s := padded k1 (take (len s A div 2) (heap s A)),
             Suc (nxt s) := padded k2 (drop (len s A div 2) (heap s A)),
             Suc (Suc (nxt s)) := padded k3 (take (len s B div 2) (heap s B)),
             Suc (Suc (Suc (nxt s))) := padded k4 (drop (len s B div 2) (heap s B))),
          nxt := Suc (Suc (Suc (Suc (nxt s))))\<rparr>))"
proof -
  let ?xa = "heap s A" and ?xb = "heap s B"
  let ?a = "length ?xa div 2" and ?b = "length ?xb div 2"
  let ?a' = "length ?xa - ?a" and ?b' = "length ?xb - ?b"
  let ?q1 = "evenup (max ?a ?b)"
  let ?q2 = "evenup (max ?q1 ?b')"
  let ?q3 = "evenup (max ?a' ?q1)"
  let ?q4 = "evenup (max ?q3 ?q2)"
  let ?A1 = "nxt s" and ?A2 = "Suc (nxt s)" and ?B1 = "Suc (Suc (nxt s))" and ?B2 = "Suc (Suc (Suc (nxt s)))"
  let ?h4 = "(heap s)(?A1 := take ?a ?xa, ?A2 := drop ?a ?xa, ?B1 := take ?b ?xb, ?B2 := drop ?b ?xb)"
  let ?s4 = "s\<lparr>heap := ?h4, nxt := Suc (Suc (Suc (Suc (nxt s))))\<rparr>"
  let ?s8 = "pad_same_length ?A2 ?B2 (pad_same_length ?A2 ?B1
                    (pad_same_length ?A1 ?B2 (pad_same_length ?A1 ?B1 ?s4)))"
  have ne: "A \<noteq> nxt s" "B \<noteq> nxt s" "A \<noteq> Suc (nxt s)" "B \<noteq> Suc (nxt s)"
     "B \<noteq> Suc (Suc (nxt s))"
    using assms by simp_all
  have mp: "mult_prepare A B s = (?A1, ?A2, ?B1, ?B2, ?s8)"
    using ne by (simp add: mult_prepare_def alloc_def len_def)
  have d: "?A1 \<noteq> ?A2" "?A1 \<noteq> ?B1" "?A1 \<noteq> ?B2" "?A2 \<noteq> ?B1" "?A2 \<noteq> ?B2" "?B1 \<noteq> ?B2"
    by simp_all
  have k4: "heap ?s4 ?A1 = take ?a ?xa" "heap ?s4 ?A2 = drop ?a ?xa"
      "heap ?s4 ?B1 = take ?b ?xb" "heap ?s4 ?B2 = drop ?b ?xb"
    by simp_all
  have h8: "heap ?s8 = (heap ?s4)(?A1 := padded ?q2 (take ?a ?xa), ?A2 := padded ?q4 (drop ?a ?xa),
                            ?B1 := padded ?q3 (take ?b ?xb), ?B2 := padded ?q4 (drop ?b ?xb))"
    using four_pads[OF d, of ?s4] by (simp only: k4 length_take length_drop min_half)
  have n8: "nxt ?s8 = Suc (Suc (Suc (Suc (nxt s))))"
    by (simp add: nxt_pad_same_length)
  have "?s8 = s\<lparr>heap := (heap s)
            (?A1 := padded ?q2 (take ?a ?xa),
             ?A2 := padded ?q4 (drop ?a ?xa),
             ?B1 := padded ?q3 (take ?b ?xb),
             ?B2 := padded ?q4 (drop ?b ?xb)),
          nxt := Suc (Suc (Suc (Suc (nxt s))))\<rparr>"
    by (rule store.equality) (simp_all add: h8 n8)
  with mp show ?thesis
    by (simp add: child_len_def Let_def len_def)
qed

subsection \<open>The lengths of the operands of the recursive calls\<close>

lemma evenup_le: "evenup n \<le> n + 1"
  by (simp add: evenup_def)

lemma evenup_even: "even (evenup n) \<or> evenup n = 1"
  unfolding evenup_def by presburger

lemma evenup_bound:
  assumes "n \<le> K" "even K \<or> K \<le> 1"
  shows "evenup n \<le> K"
  using assms unfolding evenup_def by presburger

lemma evenup_idem: "evenup (evenup n) = evenup n"
  unfolding evenup_def by presburger

lemma half_evenup_less:
  assumes "1 < m"
  shows "evenup ((m + 1) div 2) < m"
  using assms unfolding evenup_def by presburger

lemma child_len_unfold:
  "child_len lA lB =
     (evenup (max (evenup (max (lA div 2) (lB div 2))) (lB - lB div 2)),
      evenup (max (evenup (max (lA - lA div 2) (evenup (max (lA div 2) (lB div 2)))))
                  (evenup (max (evenup (max (lA div 2) (lB div 2))) (lB - lB div 2)))),
      evenup (max (lA - lA div 2) (evenup (max (lA div 2) (lB div 2)))),
      evenup (max (evenup (max (lA - lA div 2) (evenup (max (lA div 2) (lB div 2)))))
                  (evenup (max (evenup (max (lA div 2) (lB div 2))) (lB - lB div 2)))))"
  by (simp only: child_len_def Let_def)

lemma evenup_max_bound:
  assumes "x \<le> K" "y \<le> K" "even K \<or> K \<le> 1"
  shows "evenup (max x y) \<le> K"
proof -
  have "max x y \<le> K" using assms(1,2) by (rule max.boundedI)
  then show ?thesis using assms(3) by (rule evenup_bound)
qed

lemma evenup_max_pos1: "0 < x \<Longrightarrow> 0 < evenup (max x y)"
  by (rule less_le_trans[OF _ order_trans[OF max.cobounded1 evenup_ge]])

lemma evenup_max_pos2: "0 < y \<Longrightarrow> 0 < evenup (max x y)"
  by (rule less_le_trans[OF _ order_trans[OF max.cobounded2 evenup_ge]])

lemma child_len_less:
  assumes c: "child_len lA lB = (k1, k2, k3, k4)" and l: "1 < lA"
  shows "k1 < max lA lB \<and> k2 < max lA lB \<and> k3 < max lA lB \<and> k4 < max lA lB"
proof -
  define m where "m = max lA lB"
  define K where "K = evenup ((m + 1) div 2)"
  define a where "a = lA div 2"
  define b where "b = lB div 2"
  define a' where "a' = lA - lA div 2"
  define b' where "b' = lB - lB div 2"
  define q1 where "q1 = evenup (max a b)"
  define q2 where "q2 = evenup (max q1 b')"
  define q3 where "q3 = evenup (max a' q1)"
  define q4 where "q4 = evenup (max q3 q2)"
  have K: "even K \<or> K \<le> 1"
    using evenup_even[of "(m + 1) div 2"] unfolding K_def by auto
  have lm: "lA \<le> m" "lB \<le> m" by (simp_all add: m_def)
  have h: "a \<le> (m + 1) div 2" "b \<le> (m + 1) div 2" "a' \<le> (m + 1) div 2" "b' \<le> (m + 1) div 2"
    using lm unfolding a_def b_def a'_def b'_def by presburger+
  have hK: "a \<le> K" "b \<le> K" "a' \<le> K" "b' \<le> K"
    unfolding K_def by (rule order_trans[OF h(1) evenup_ge] order_trans[OF h(2) evenup_ge]
        order_trans[OF h(3) evenup_ge] order_trans[OF h(4) evenup_ge])+
  have q1: "q1 \<le> K" unfolding q1_def using hK(1,2) K by (rule evenup_max_bound)
  have q2: "q2 \<le> K" unfolding q2_def using q1 hK(4) K by (rule evenup_max_bound)
  have q3: "q3 \<le> K" unfolding q3_def using hK(3) q1 K by (rule evenup_max_bound)
  have q4: "q4 \<le> K" unfolding q4_def using q3 q2 K by (rule evenup_max_bound)
  have "1 < m" using l lm by simp
  then have Km: "K < m" unfolding K_def by (rule half_evenup_less)
  have "(k1, k2, k3, k4) = (q2, q4, q3, q4)"
    using c unfolding child_len_unfold q4_def q3_def q2_def q1_def a_def b_def a'_def b'_def
    by (rule sym)
  then have "k1 = q2" "k2 = q4" "k3 = q3" "k4 = q4" by simp_all
  with Km q2 q3 q4 show ?thesis unfolding m_def by simp
qed

lemma child_len_pos:
  assumes c: "child_len lA lB = (k1, k2, k3, k4)" and l: "1 < lA"
  shows "0 < k1 \<and> 0 < k2 \<and> 0 < k3 \<and> 0 < k4"
proof -
  define a where "a = lA div 2"
  define b where "b = lB div 2"
  define a' where "a' = lA - lA div 2"
  define b' where "b' = lB - lB div 2"
  define q1 where "q1 = evenup (max a b)"
  define q2 where "q2 = evenup (max q1 b')"
  define q3 where "q3 = evenup (max a' q1)"
  define q4 where "q4 = evenup (max q3 q2)"
  have "0 < a" using l unfolding a_def by presburger
  then have q1: "0 < q1" unfolding q1_def by (rule evenup_max_pos1)
  then have q2: "0 < q2" unfolding q2_def by (rule evenup_max_pos1)
  from q1 have q3: "0 < q3" unfolding q3_def by (rule evenup_max_pos2)
  then have q4: "0 < q4" unfolding q4_def by (rule evenup_max_pos1)
  have "(k1, k2, k3, k4) = (q2, q4, q3, q4)"
    using c unfolding child_len_unfold q4_def q3_def q2_def q1_def a_def b_def a'_def b'_def
    by (rule sym)
  then have "k1 = q2" "k2 = q4" "k3 = q3" "k4 = q4" by simp_all
  with q2 q3 q4 show ?thesis by simp
qed

lemma child_len_equal:
  assumes c: "child_len n n = (k1, k2, k3, k4)"
  shows "k2 = k1 \<and> k3 = k1 \<and> k4 = k1 \<and> (even k1 \<or> k1 = 1)"
proof -
  define a where "a = n div 2"
  define a' where "a' = n - n div 2"
  define q1 where "q1 = evenup (max a a)"
  define q2 where "q2 = evenup (max q1 a')"
  define q3 where "q3 = evenup (max a' q1)"
  define q4 where "q4 = evenup (max q3 q2)"
  have 32: "q3 = q2" unfolding q3_def q2_def by (rule arg_cong[OF max.commute])
  have 42: "q4 = q2" unfolding q4_def 32 max.idem unfolding q2_def by (rule evenup_idem)
  have ev: "even q2 \<or> q2 = 1" unfolding q2_def by (rule evenup_even)
  have "(k1, k2, k3, k4) = (q2, q4, q3, q4)"
    using c unfolding child_len_unfold q4_def q3_def q2_def q1_def a_def a'_def
    by (rule sym)
  then have "k1 = q2" "k2 = q4" "k3 = q3" "k4 = q4" by simp_all
  with 32 42 ev show ?thesis by simp
qed

section \<open>Termination of \<^verbatim>\<open>binary_mult\<close>\<close>

text \<open>
  The second, third and fourth recursive call run in the store that the calls before
  them have left, so termination needs that a call which returns leaves the lists of
  its caller as they were. This is proved first for the arguments on which the
  recursion is well-founded.
\<close>

lemma binary_mult_frame_dom:
  assumes "binary_mult_dom (A, B, s)" "binary_mult A B s = Inr (r, s')"
  shows "nxt s \<le> r \<and> r < nxt s' \<and> (\<forall>z<nxt s. heap s' z = heap s z)"
  using assms
proof (induction A B s arbitrary: r s' rule: binary_mult.pinduct)
  case (1 A B s)
  note dom = "1.hyps"(1)
  note res = "1.prems"[unfolded binary_mult.psimps[OF dom]]
  have v: "A < nxt s" "B < nxt s"
    using res by (auto split: if_splits)
  then have nn: "\<not> \<not> (A < nxt s \<and> B < nxt s)" by simp
  show ?case
  proof (cases "1 < len s A")
    case False
    with res v show ?thesis
      by (auto simp: alloc_def Let_def split: sum.splits)
  next
    case True
    obtain k1 k2 k3 k4 where k: "child_len (len s A) (len s B) = (k1, k2, k3, k4)"
      by (cases "child_len (len s A) (len s B)") auto
    define A1 where "A1 = nxt s"
    define A2 where "A2 = Suc (nxt s)"
    define B1 where "B1 = Suc (Suc (nxt s))"
    define B2 where "B2 = Suc (Suc (Suc (nxt s)))"
    define s1 where "s1 = s\<lparr>heap := (heap s)
            (nxt s := padded k1 (take (len s A div 2) (heap s A)),
             Suc (nxt s) := padded k2 (drop (len s A div 2) (heap s A)),
             Suc (Suc (nxt s)) := padded k3 (take (len s B div 2) (heap s B)),
             Suc (Suc (Suc (nxt s))) := padded k4 (drop (len s B div 2) (heap s B))),
          nxt := Suc (Suc (Suc (Suc (nxt s))))\<rparr>"
    have mp: "mult_prepare A B s = (A1, A2, B1, B2, s1)"
      unfolding mult_prepare_eq[OF v] k A1_def A2_def B1_def B2_def s1_def by simp
    have n1: "nxt s1 = nxt s + 4" by (simp add: s1_def)
    have f1: "heap s1 z = heap s z" if "z < nxt s" for z
      using that by (simp add: s1_def)
    from res True v mp obtain r1 s2 r2 s3 r3 s4 r4 s5 where
      c1: "binary_mult A1 B1 s1 = Inr (r1, s2)" and
      c2: "binary_mult A1 B2 s2 = Inr (r2, s3)" and
      c3: "binary_mult A2 B1 s3 = Inr (r3, s4)" and
      c4: "binary_mult A2 B2 s4 = Inr (r4, s5)" and
      cc: "mult_combine r1 r2 r3 r4 (len s A) s5 = Inr (r, s')"
      by (auto simp: Let_def split: sum.splits)
    have i1: "nxt s1 \<le> r1 \<and> r1 < nxt s2 \<and> (\<forall>z<nxt s1. heap s2 z = heap s1 z)"
      using "1.IH"(1)[OF nn refl True refl mp[symmetric] refl refl refl c1] .
    have i2: "nxt s2 \<le> r2 \<and> r2 < nxt s3 \<and> (\<forall>z<nxt s2. heap s3 z = heap s2 z)"
      using "1.IH"(2)[OF nn refl True refl mp[symmetric] refl refl refl c1 refl c2] .
    have i3: "nxt s3 \<le> r3 \<and> r3 < nxt s4 \<and> (\<forall>z<nxt s3. heap s4 z = heap s3 z)"
      using "1.IH"(3)[OF nn refl True refl mp[symmetric] refl refl refl c1 refl c2 refl c3] .
    have i4: "nxt s4 \<le> r4 \<and> r4 < nxt s5 \<and> (\<forall>z<nxt s4. heap s5 z = heap s4 z)"
      using "1.IH"(4)[OF nn refl True refl mp[symmetric] refl refl refl c1 refl c2 refl c3 refl c4] .
    have d: "r2 \<noteq> r3" "r1 \<noteq> r2" "r1 \<noteq> r3" "r4 \<noteq> r1" "r4 \<noteq> r2" "r4 \<noteq> r3"
      and vv: "r1 < nxt s5" "r2 < nxt s5" "r3 < nxt s5" "r4 < nxt s5"
      and lo: "nxt s \<le> r1" "nxt s \<le> r2" "nxt s \<le> r3" "nxt s \<le> r4" "nxt s \<le> nxt s5"
      using i1 i2 i3 i4 n1 by linarith+
    from mult_combine_eq[OF d vv, of "len s A"] cc
    have r: "r = nxt s5 + 4" "nxt s' = nxt s5 + 5"
      and f5: "\<forall>z<nxt s5. z \<noteq> r1 \<longrightarrow> z \<noteq> r2 \<longrightarrow> z \<noteq> r3 \<longrightarrow> z \<noteq> r4 \<longrightarrow> heap s' z = heap s5 z"
      by auto
    have "heap s' z = heap s z" if z: "z < nxt s" for z
    proof -
      have "heap s' z = heap s5 z" using f5 z lo by auto
      also have "\<dots> = heap s4 z" using i4 i3 i2 i1 n1 z by auto
      also have "\<dots> = heap s3 z" using i3 i2 i1 n1 z by auto
      also have "\<dots> = heap s2 z" using i2 i1 n1 z by auto
      also have "\<dots> = heap s1 z" using i1 n1 z by auto
      also have "\<dots> = heap s z" using f1 z by simp
      finally show ?thesis .
    qed
    with r lo show ?thesis by simp
  qed
qed

lemma child_len_ge:
  assumes c: "child_len lA lB = (k1, k2, k3, k4)"
  shows "lA div 2 \<le> k1 \<and> lA - lA div 2 \<le> k2 \<and> lB div 2 \<le> k3 \<and> lB - lB div 2 \<le> k4"
proof -
  define a where "a = lA div 2"
  define b where "b = lB div 2"
  define a' where "a' = lA - lA div 2"
  define b' where "b' = lB - lB div 2"
  define q1 where "q1 = evenup (max a b)"
  define q2 where "q2 = evenup (max q1 b')"
  define q3 where "q3 = evenup (max a' q1)"
  define q4 where "q4 = evenup (max q3 q2)"
  have 1: "a \<le> q1" "b \<le> q1" unfolding q1_def
    by (rule order_trans[OF max.cobounded1 evenup_ge] order_trans[OF max.cobounded2 evenup_ge])+
  have 2: "q1 \<le> q2" "b' \<le> q2" unfolding q2_def
    by (rule order_trans[OF max.cobounded1 evenup_ge] order_trans[OF max.cobounded2 evenup_ge])+
  have 3: "a' \<le> q3" "q1 \<le> q3" unfolding q3_def
    by (rule order_trans[OF max.cobounded1 evenup_ge] order_trans[OF max.cobounded2 evenup_ge])+
  have 4: "q3 \<le> q4" "q2 \<le> q4" unfolding q4_def
    by (rule order_trans[OF max.cobounded1 evenup_ge] order_trans[OF max.cobounded2 evenup_ge])+
  have "(k1, k2, k3, k4) = (q2, q4, q3, q4)"
    using c unfolding child_len_unfold q4_def q3_def q2_def q1_def a_def b_def a'_def b'_def
    by (rule sym)
  then have "k1 = q2" "k2 = q4" "k3 = q3" "k4 = q4" by simp_all
  with 1 2 3 4 show ?thesis unfolding a_def b_def a'_def b'_def by simp
qed

lemma mult_prepare_props:
  assumes v: "A < nxt s" "B < nxt s"
    and mp: "mult_prepare A B s = (A1, A2, B1, B2, s1)"
    and k: "child_len (len s A) (len s B) = (k1, k2, k3, k4)"
  shows "A1 = nxt s" "A2 = nxt s + 1" "B1 = nxt s + 2" "B2 = nxt s + 3" "nxt s1 = nxt s + 4"
    "len s1 A1 = k1" "len s1 A2 = k2" "len s1 B1 = k3" "len s1 B2 = k4"
    "\<And>z. z < nxt s \<Longrightarrow> heap s1 z = heap s z"
    "heap s1 A1 = padded k1 (take (len s A div 2) (heap s A))"
    "heap s1 A2 = padded k2 (drop (len s A div 2) (heap s A))"
    "heap s1 B1 = padded k3 (take (len s B div 2) (heap s B))"
    "heap s1 B2 = padded k4 (drop (len s B div 2) (heap s B))"
proof -
  note e = mp[unfolded mult_prepare_eq[OF v] k prod.case]
  show r: "A1 = nxt s" "A2 = nxt s + 1" "B1 = nxt s + 2" "B2 = nxt s + 3"
    using e[symmetric] by simp_all
  have s1: "s1 = s\<lparr>heap := (heap s)
            (nxt s := padded k1 (take (len s A div 2) (heap s A)),
             Suc (nxt s) := padded k2 (drop (len s A div 2) (heap s A)),
             Suc (Suc (nxt s)) := padded k3 (take (len s B div 2) (heap s B)),
             Suc (Suc (Suc (nxt s))) := padded k4 (drop (len s B div 2) (heap s B))),
          nxt := Suc (Suc (Suc (Suc (nxt s))))\<rparr>"
    using e[symmetric] by simp
  show "nxt s1 = nxt s + 4" by (simp add: s1)
  show "heap s1 z = heap s z" if "z < nxt s" for z using that by (simp add: s1)
  show h: "heap s1 A1 = padded k1 (take (len s A div 2) (heap s A))"
    "heap s1 A2 = padded k2 (drop (len s A div 2) (heap s A))"
    "heap s1 B1 = padded k3 (take (len s B div 2) (heap s B))"
    "heap s1 B2 = padded k4 (drop (len s B div 2) (heap s B))"
    by (simp_all add: s1 r)
  note g = child_len_ge[OF k]
  show "len s1 A1 = k1" "len s1 A2 = k2" "len s1 B1 = k3" "len s1 B2 = k4"
    unfolding len_def h using g
    by (simp_all add: length_padded len_def min_half)
qed

lemma frame_refl: "frame s s"
  by (simp add: frame_def)

lemma frame_trans: "frame s s' \<Longrightarrow> frame s' s'' \<Longrightarrow> frame s s''"
  by (auto simp: frame_def)

lemma binary_mult_dom_frame:
  "binary_mult_dom (A, B, s) \<Longrightarrow> binary_mult A B s = Inr (r, s') \<Longrightarrow> frame s s'"
  using binary_mult_frame_dom[of A B s r s'] by (simp add: frame_def)

lemma child_measure:
  assumes v: "A < nxt s" "B < nxt s" and l: "1 < len s A"
    and mp: "mult_prepare A B s = (A1, A2, B1, B2, s1)"
    and f: "frame s1 s'"
  shows "max (len s' A1) (len s' B1) < max (len s A) (len s B)"
    "max (len s' A1) (len s' B2) < max (len s A) (len s B)"
    "max (len s' A2) (len s' B1) < max (len s A) (len s B)"
    "max (len s' A2) (len s' B2) < max (len s A) (len s B)"
proof -
  obtain k1 k2 k3 k4 where k: "child_len (len s A) (len s B) = (k1, k2, k3, k4)"
    by (cases "child_len (len s A) (len s B)") auto
  note p = mult_prepare_props[OF v mp k]
  have "A1 < nxt s1" "A2 < nxt s1" "B1 < nxt s1" "B2 < nxt s1"
    using p(1-5) by simp_all
  then have "len s' A1 = k1" "len s' A2 = k2" "len s' B1 = k3" "len s' B2 = k4"
    using f p(6-9) by (simp_all add: frame_def len_def)
  with child_len_less[OF k l]
  show "max (len s' A1) (len s' B1) < max (len s A) (len s B)"
    "max (len s' A1) (len s' B2) < max (len s A) (len s B)"
    "max (len s' A2) (len s' B1) < max (len s A) (len s B)"
    "max (len s' A2) (len s' B2) < max (len s A) (len s B)"
    by simp_all
qed

termination binary_mult
proof (relation "measure (\<lambda>(A, B, s). max (len s A) (len s B))", goal_cases)
  case 1
  show ?case by simp
next
  case (2 A B s x xa A1 y A2 ya B1 yb B2 s1)
  then have mp: "mult_prepare A B s = (A1, A2, B1, B2, s1)" by simp
  from 2 child_measure(1)[OF _ _ _ mp frame_refl] show ?case by simp
next
  case (3 A B s x xa A1 y A2 ya B1 yb B2 s1 b r1 s2)
  then have mp: "mult_prepare A B s = (A1, A2, B1, B2, s1)" by simp
  have f: "frame s1 s2"
    using 3 binary_mult_dom_frame[of A1 B1 s1 r1 s2] by simp
  from 3 child_measure(2)[OF _ _ _ mp f] show ?case by simp
next
  case (4 A B s x xa A1 y A2 ya B1 yb B2 s1 b r1 s2 ba r2 s3)
  then have mp: "mult_prepare A B s = (A1, A2, B1, B2, s1)" by simp
  have "frame s1 s2"
    using 4 binary_mult_dom_frame[of A1 B1 s1 r1 s2] by simp
  moreover have "frame s2 s3"
    using 4 binary_mult_dom_frame[of A1 B2 s2 r2 s3] by simp
  ultimately have f: "frame s1 s3" by (rule frame_trans)
  from 4 child_measure(3)[OF _ _ _ mp f] show ?case by simp
next
  case (5 A B s x xa A1 y A2 ya B1 yb B2 s1 b r1 s2 ba r2 s3 bb r3 s4)
  then have mp: "mult_prepare A B s = (A1, A2, B1, B2, s1)" by simp
  have "frame s1 s2"
    using 5 binary_mult_dom_frame[of A1 B1 s1 r1 s2] by simp
  moreover have "frame s2 s3"
    using 5 binary_mult_dom_frame[of A1 B2 s2 r2 s3] by simp
  moreover have "frame s3 s4"
    using 5 binary_mult_dom_frame[of A2 B1 s3 r3 s4] by simp
  ultimately have f: "frame s1 s4" by (blast intro: frame_trans)
  from 5 child_measure(4)[OF _ _ _ mp f] show ?case by simp
qed

declare binary_mult.simps [simp del]

section \<open>\<^verbatim>\<open>binary_mult\<close> computes \<open>mult_list\<close>\<close>

lemma child_padded_length:
  assumes k: "child_len (length a) (length b) = (k1, k2, k3, k4)"
  shows "length (padded k1 (take (length a div 2) a)) = k1"
    "length (padded k2 (drop (length a div 2) a)) = k2"
    "length (padded k3 (take (length b div 2) b)) = k3"
    "length (padded k4 (drop (length b div 2) b)) = k4"
  using child_len_ge[OF k] by (simp_all add: length_padded min_half)

termination mult_list
proof (relation "measure (\<lambda>(a, b). max (length a) (length b))", goal_cases)
  case 1
  show ?case by simp
next
  case (2 a b k1 y k2 ya k3 k4)
  then have k: "child_len (length a) (length b) = (k1, k2, k3, k4)" by simp
  from child_len_less[OF k] 2(1) show ?case
    by (simp add: child_padded_length[OF k])
next
  case (3 a b k1 y k2 ya k3 k4)
  then have k: "child_len (length a) (length b) = (k1, k2, k3, k4)" by simp
  from child_len_less[OF k] 3(1) show ?case
    by (simp add: child_padded_length[OF k])
next
  case (4 a b k1 y k2 ya k3 k4)
  then have k: "child_len (length a) (length b) = (k1, k2, k3, k4)" by simp
  from child_len_less[OF k] 4(1) show ?case
    by (simp add: child_padded_length[OF k])
next
  case (5 a b k1 y k2 ya k3 k4)
  then have k: "child_len (length a) (length b) = (k1, k2, k3, k4)" by simp
  from child_len_less[OF k] 5(1) show ?case
    by (simp add: child_padded_length[OF k])
qed

declare mult_list.simps [simp del]

lemma mult_list_base: "length a \<le> 1 \<Longrightarrow> mult_list a b = [hd a * hd b]"
  by (subst mult_list.simps) simp

lemma mult_list_rec:
  assumes "1 < length a" "child_len (length a) (length b) = (k1, k2, k3, k4)"
  shows "mult_list a b =
           combine_list (length a)
             (mult_list (padded k1 (take (length a div 2) a)) (padded k3 (take (length b div 2) b)))
             (mult_list (padded k1 (take (length a div 2) a)) (padded k4 (drop (length b div 2) b)))
             (mult_list (padded k2 (drop (length a div 2) a)) (padded k3 (take (length b div 2) b)))
             (mult_list (padded k2 (drop (length a div 2) a)) (padded k4 (drop (length b div 2) b)))"
  using assms by (subst mult_list.simps) simp

lemma nonempty_cond: "0 < (x::nat) \<Longrightarrow> 0 < y \<Longrightarrow> 1 < x \<or> x = 1 \<and> 0 < (y::nat)"
  by arith

lemma binary_mult_refines:
  assumes "A < nxt s" "B < nxt s" "1 < len s A \<or> (len s A = 1 \<and> 0 < len s B)"
  shows "\<exists>r s'. binary_mult A B s = Inr (r, s') \<and>
           heap s' r = mult_list (heap s A) (heap s B) \<and>
           nxt s \<le> r \<and> r < nxt s' \<and> frame s s'"
  using assms
proof (induction A B s rule: binary_mult.induct)
  case (1 A B s)
  note v = "1.prems"(1,2)
  then have nn: "\<not> \<not> (A < nxt s \<and> B < nxt s)" by simp
  show ?case
  proof (cases "1 < len s A")
    case False
    with "1.prems"(3) have l: "len s A = 1" "0 < len s B" by simp_all
    then have g: "getitem s A 0 = Inr (hd (heap s A))" "getitem s B 0 = Inr (hd (heap s B))"
      by (cases "heap s A"; cases "heap s B"; simp add: getitem_def len_def)+
    have "binary_mult A B s = Inr (alloc [hd (heap s A) * hd (heap s B)] s)"
      using v l by (subst binary_mult.simps) (simp add: g)
    moreover have "mult_list (heap s A) (heap s B) = [hd (heap s A) * hd (heap s B)]"
      using l by (simp add: mult_list_base len_def)
    ultimately show ?thesis
      by (simp add: alloc_def frame_def)
  next
    case True
    obtain k1 k2 k3 k4 where k: "child_len (len s A) (len s B) = (k1, k2, k3, k4)"
      by (cases "child_len (len s A) (len s B)") auto
    obtain A1 A2 B1 B2 s1 where mp: "mult_prepare A B s = (A1, A2, B1, B2, s1)"
      by (cases "mult_prepare A B s") auto
    note p = mult_prepare_props[OF v mp k]
    note pos = child_len_pos[OF k True]
    have f01: "frame s s1" using p(5,10) by (simp add: frame_def)
    have v1: "A1 < nxt s1" "A2 < nxt s1" "B1 < nxt s1" "B2 < nxt s1"
      using p(1-5) by simp_all
    have ls: "0 < len s1 A1" "0 < len s1 A2" "0 < len s1 B1" "0 < len s1 B2"
      using pos p(6-9) by simp_all
    have c1: "1 < len s1 A1 \<or> len s1 A1 = 1 \<and> 0 < len s1 B1"
      using ls(1,3) by (rule nonempty_cond)
    from "1.IH"(1)[OF nn refl True refl mp[symmetric] refl refl refl v1(1,3) c1]
    obtain r1 s2 where r1: "binary_mult A1 B1 s1 = Inr (r1, s2)"
      "heap s2 r1 = mult_list (heap s1 A1) (heap s1 B1)" "nxt s1 \<le> r1" "r1 < nxt s2" "frame s1 s2"
      by blast
    have e2: "heap s2 A1 = heap s1 A1" "heap s2 A2 = heap s1 A2" "heap s2 B1 = heap s1 B1"
      "heap s2 B2 = heap s1 B2" and n2: "nxt s1 \<le> nxt s2"
      using r1(5) v1 by (simp_all add: frame_def)
    have v2: "A1 < nxt s2" "A2 < nxt s2" "B1 < nxt s2" "B2 < nxt s2"
      using v1 n2 by simp_all
    have c2: "1 < len s2 A1 \<or> len s2 A1 = 1 \<and> 0 < len s2 B2"
      using ls(1,4) unfolding len_def e2 by (rule nonempty_cond)
    from "1.IH"(2)[OF nn refl True refl mp[symmetric] refl refl refl r1(1) refl v2(1,4) c2]
    obtain r2 s3 where r2: "binary_mult A1 B2 s2 = Inr (r2, s3)"
      "heap s3 r2 = mult_list (heap s2 A1) (heap s2 B2)" "nxt s2 \<le> r2" "r2 < nxt s3" "frame s2 s3"
      by blast
    have e3: "heap s3 A1 = heap s1 A1" "heap s3 A2 = heap s1 A2" "heap s3 B1 = heap s1 B1"
      "heap s3 B2 = heap s1 B2" "heap s3 r1 = heap s2 r1" and n3: "nxt s2 \<le> nxt s3"
      using r2(5) v2 e2 r1(4) by (simp_all add: frame_def)
    have v3: "A1 < nxt s3" "A2 < nxt s3" "B1 < nxt s3" "B2 < nxt s3"
      using v2 n3 by simp_all
    have c3: "1 < len s3 A2 \<or> len s3 A2 = 1 \<and> 0 < len s3 B1"
      using ls(2,3) unfolding len_def e3 by (rule nonempty_cond)
    from "1.IH"(3)[OF nn refl True refl mp[symmetric] refl refl refl r1(1) refl r2(1) refl v3(2,3) c3]
    obtain r3 s4 where r3: "binary_mult A2 B1 s3 = Inr (r3, s4)"
      "heap s4 r3 = mult_list (heap s3 A2) (heap s3 B1)" "nxt s3 \<le> r3" "r3 < nxt s4" "frame s3 s4"
      by blast
    have e4: "heap s4 A1 = heap s1 A1" "heap s4 A2 = heap s1 A2" "heap s4 B1 = heap s1 B1"
      "heap s4 B2 = heap s1 B2" "heap s4 r1 = heap s2 r1" "heap s4 r2 = heap s3 r2"
      and n4: "nxt s3 \<le> nxt s4"
      using r3(5) v3 e3 r1(4) r2(4) n3 by (simp_all add: frame_def)
    have v4: "A1 < nxt s4" "A2 < nxt s4" "B1 < nxt s4" "B2 < nxt s4"
      using v3 n4 by simp_all
    have c4: "1 < len s4 A2 \<or> len s4 A2 = 1 \<and> 0 < len s4 B2"
      using ls(2,4) unfolding len_def e4 by (rule nonempty_cond)
    from "1.IH"(4)[OF nn refl True refl mp[symmetric] refl refl refl r1(1) refl r2(1) refl r3(1) refl
        v4(2,4) c4]
    obtain r4 s5 where r4: "binary_mult A2 B2 s4 = Inr (r4, s5)"
      "heap s5 r4 = mult_list (heap s4 A2) (heap s4 B2)" "nxt s4 \<le> r4" "r4 < nxt s5" "frame s4 s5"
      by blast
    have e5: "heap s5 r1 = heap s2 r1" "heap s5 r2 = heap s3 r2" "heap s5 r3 = heap s4 r3"
      and n5: "nxt s4 \<le> nxt s5"
      using r4(5) e4 r1(4) r2(4) r3(4) n3 n4 by (simp_all add: frame_def)
    have d: "r2 \<noteq> r3" "r1 \<noteq> r2" "r1 \<noteq> r3" "r4 \<noteq> r1" "r4 \<noteq> r2" "r4 \<noteq> r3"
      and vv: "r1 < nxt s5" "r2 < nxt s5" "r3 < nxt s5" "r4 < nxt s5"
      using r1(3,4) r2(3,4) r3(3,4) r4(3,4) n3 n4 n5 by linarith+
    from mult_combine_eq[OF d vv, of "len s A"]
    obtain s' where cc: "mult_combine r1 r2 r3 r4 (len s A) s5 = Inr (nxt s5 + 4, s')"
      "nxt s' = nxt s5 + 5"
      "heap s' (nxt s5 + 4) = combine_list (len s A) (heap s5 r1) (heap s5 r2) (heap s5 r3) (heap s5 r4)"
      "\<forall>z<nxt s5. z \<noteq> r1 \<longrightarrow> z \<noteq> r2 \<longrightarrow> z \<noteq> r3 \<longrightarrow> z \<noteq> r4 \<longrightarrow> heap s' z = heap s5 z"
      by blast
    have bm: "binary_mult A B s = Inr (nxt s5 + 4, s')"
      using v True by (subst binary_mult.simps) (simp add: mp r1(1) r2(1) r3(1) r4(1) cc(1))
    have f05: "frame s s5"
      using f01 r1(5) r2(5) r3(5) r4(5) by (blast intro: frame_trans)
    have lo: "nxt s \<le> r1" "nxt s \<le> r2" "nxt s \<le> r3" "nxt s \<le> r4"
      using p(5) r1(3) r2(3) r3(3) r4(3) n2 n3 n4 by linarith+
    have f: "frame s s'"
      unfolding frame_def
    proof (intro conjI allI impI)
      show "nxt s \<le> nxt s'" using f05 cc(2) by (simp add: frame_def)
      fix z assume z: "z < nxt s"
      then have "heap s' z = heap s5 z" using cc(4) lo f05 by (auto simp: frame_def)
      with f05 z show "heap s' z = heap s z" by (simp add: frame_def)
    qed
    have val: "heap s' (nxt s5 + 4) = mult_list (heap s A) (heap s B)"
      unfolding cc(3) e5 r1(2) r2(2) r3(2) r4(2) e2 e3 e4 p(11-14)
      using mult_list_rec[OF True[unfolded len_def] k[unfolded len_def]]
      by (simp add: len_def)
    have "nxt s \<le> nxt s5 + 4" using f05 by (simp add: frame_def)
    with bm val f cc(2) show ?thesis by simp
  qed
qed

section \<open>The values of bit sequences\<close>

lemma bits_to_int_Nil [simp]: "bits_to_int [] = 0"
  by (simp add: bits_to_int_def)

lemma bits_to_int_snoc [simp]: "bits_to_int (xs @ [x]) = 2 * bits_to_int xs + x"
  by (simp add: bits_to_int_def)

lemma bits_to_int_append:
  "bits_to_int (xs @ ys) = bits_to_int xs * 2 ^ length ys + bits_to_int ys"
proof (induction ys rule: rev_induct)
  case Nil
  show ?case by simp
next
  case (snoc y ys)
  have "bits_to_int (xs @ ys @ [y]) = 2 * bits_to_int (xs @ ys) + y"
    using bits_to_int_snoc[of "xs @ ys" y] by simp
  then show ?case by (simp add: snoc.IH algebra_simps)
qed

lemma bits_to_int_Cons: "bits_to_int (x # xs) = x * 2 ^ length xs + bits_to_int xs"
  using bits_to_int_append[of "[x]" xs] bits_to_int_snoc[of "[]" x] by simp

lemma bits_to_int_replicate0 [simp]: "bits_to_int (replicate k 0) = 0"
  by (induction k) (simp_all add: bits_to_int_Cons)

lemma bits_to_int_padded [simp]: "bits_to_int (padded q xs) = bits_to_int xs"
  by (simp add: padded_def bits_to_int_append)

lemma bits_to_int_shift: "bits_to_int (xs @ replicate k 0) = bits_to_int xs * 2 ^ k"
  by (simp add: bits_to_int_append)

lemma bits_Nil [simp]: "bits []"
  by (simp add: bits_def)

lemma bits_Cons [simp]: "bits (x # xs) \<longleftrightarrow> (x = 0 \<or> x = 1) \<and> bits xs"
  by (auto simp: bits_def)

lemma bits_append [simp]: "bits (xs @ ys) \<longleftrightarrow> bits xs \<and> bits ys"
  by (auto simp: bits_def)

lemma bits_rev [simp]: "bits (rev xs) \<longleftrightarrow> bits xs"
  by (simp add: bits_def)

lemma bits_replicate0 [simp]: "bits (replicate k 0)"
  by (auto simp: bits_def)

lemma bits_padded [simp]: "bits (padded q xs) \<longleftrightarrow> bits xs"
  by (simp add: padded_def)

lemma bits_take: "bits xs \<Longrightarrow> bits (take k xs)"
  by (auto simp: bits_def dest: in_set_takeD)

lemma bits_drop: "bits xs \<Longrightarrow> bits (drop k xs)"
  by (auto simp: bits_def dest: in_set_dropD)

lemma add_bits_value:
  assumes "length xs = length ys" "bits xs" "bits ys" "c = 0 \<or> c = 1"
  shows "bits_to_int (rev (fst (add_bits xs ys c))) + 2 ^ length xs * snd (add_bits xs ys c) =
           bits_to_int (rev xs) + bits_to_int (rev ys) + c \<and>
         bits (fst (add_bits xs ys c)) \<and> length (fst (add_bits xs ys c)) = length xs \<and>
         (snd (add_bits xs ys c) = 0 \<or> snd (add_bits xs ys c) = 1)"
  using assms
proof (induction xs ys c rule: add_bits.induct)
  case (1 x xs y ys c)
  let ?c = "if 1 < y + x + c then 1 else 0 :: int"
  have xy: "x = 0 \<or> x = 1" "y = 0 \<or> y = 1" using "1.prems" by simp_all
  have c': "?c = 0 \<or> ?c = 1" by simp
  have ih: "bits_to_int (rev (fst (add_bits xs ys ?c))) + 2 ^ length xs * snd (add_bits xs ys ?c) =
           bits_to_int (rev xs) + bits_to_int (rev ys) + ?c \<and>
         bits (fst (add_bits xs ys ?c)) \<and> length (fst (add_bits xs ys ?c)) = length xs \<and>
         (snd (add_bits xs ys ?c) = 0 \<or> snd (add_bits xs ys ?c) = 1)"
    using "1.IH"[OF _ _ _ c'] "1.prems" by simp
  have m: "(y + x + c) mod 2 + 2 * ?c = y + x + c" "(y + x + c) mod 2 = 0 \<or> (y + x + c) mod 2 = 1"
    using xy "1.prems"(4) by auto
  show ?case
    using ih m by (simp add: case_prod_unfold Let_def algebra_simps)
qed simp_all

lemma heap_store_of: "heap (store_of xss) i = (if i < length xss then xss ! i else [])"
  by (simp add: store_of_def)

lemma nxt_store_of [simp]: "nxt (store_of xss) = length xss"
  by (simp add: store_of_def)

lemma heap_store_of_2 [simp]:
  "heap (store_of [a, b]) 0 = a" "heap (store_of [a, b]) (Suc 0) = b"
  by (simp_all add: heap_store_of)

lemma add_list_value:
  assumes "bits xs" "bits ys"
  shows "bits_to_int (add_list xs ys) = bits_to_int xs + bits_to_int ys" "bits (add_list xs ys)"
proof -
  define q where "q = evenup (max (length xs) (length ys))"
  define px where "px = rev (padded q xs)"
  define py where "py = rev (padded q ys)"
  have q: "length xs \<le> q" "length ys \<le> q"
    unfolding q_def
    by (rule order_trans[OF max.cobounded1 evenup_ge] order_trans[OF max.cobounded2 evenup_ge])+
  have l: "length px = length py" "length px = q"
    using q by (simp_all add: px_def py_def length_padded)
  have b: "bits px" "bits py" using assms by (simp_all add: px_def py_def)
  have v: "bits_to_int (rev px) = bits_to_int xs" "bits_to_int (rev py) = bits_to_int ys"
    by (simp_all add: px_def py_def)
  define r where "r = fst (add_bits px py 0)"
  define c where "c = snd (add_bits px py 0)"
  from add_bits_value[OF l(1) b, of 0]
  have a: "bits_to_int (rev r) + 2 ^ length px * c = bits_to_int xs + bits_to_int ys"
    "bits r" "length r = length px" "c = 0 \<or> c = 1"
    by (simp_all add: r_def c_def v)
  have al: "add_list xs ys = rev (r @ (if c = 1 then [c] else []))"
    by (simp add: add_list_def Let_def case_prod_unfold q_def px_def py_def r_def c_def)
  show "bits_to_int (add_list xs ys) = bits_to_int xs + bits_to_int ys"
    using a by (auto simp: al bits_to_int_Cons)
  show "bits (add_list xs ys)"
    using a by (auto simp: al)
qed

lemma bits_to_int_bounds:
  assumes "bits xs"
  shows "0 \<le> bits_to_int xs \<and> bits_to_int xs < 2 ^ length xs"
  using assms
proof (induction xs rule: rev_induct)
  case Nil
  show ?case by simp
next
  case (snoc x xs)
  then have "x = 0 \<or> x = 1" "0 \<le> bits_to_int xs" "bits_to_int xs < 2 ^ length xs"
    by simp_all
  then show ?case by auto
qed

lemma bits_to_int_take_drop:
  "bits_to_int xs = bits_to_int (take k xs) * 2 ^ (length xs - k) + bits_to_int (drop k xs)"
  using bits_to_int_append[of "take k xs" "drop k xs"] by simp

lemma fit_value:
  assumes "bits xs"
  shows "bits_to_int (fit k xs) = bits_to_int xs mod 2 ^ k" "bits (fit k xs)"
proof -
  show "bits (fit k xs)"
    using assms by (simp add: fit_def bits_drop)
  show "bits_to_int (fit k xs) = bits_to_int xs mod 2 ^ k"
  proof (cases "length xs < k")
    case True
    have "0 \<le> bits_to_int xs" "bits_to_int xs < 2 ^ length xs"
      using bits_to_int_bounds[OF assms] by simp_all
    moreover have "(2::int) ^ length xs \<le> 2 ^ k"
      using True by (simp add: power_increasing)
    ultimately have "bits_to_int xs mod 2 ^ k = bits_to_int xs"
      by (intro mod_pos_pos_trivial) linarith+
    with True show ?thesis
      by (simp add: fit_def bits_to_int_append)
  next
    case False
    define m where "m = length xs - k"
    have lk: "length xs - m = k" using False by (simp add: m_def)
    have d: "bits (drop m xs)" using assms by (rule bits_drop)
    have "0 \<le> bits_to_int (drop m xs)" "bits_to_int (drop m xs) < 2 ^ k"
      using bits_to_int_bounds[OF d] lk by simp_all
    then have "(bits_to_int (take m xs) * 2 ^ k + bits_to_int (drop m xs)) mod 2 ^ k =
        bits_to_int (drop m xs)"
      by simp
    then have "bits_to_int xs mod 2 ^ k = bits_to_int (drop m xs)"
      using bits_to_int_take_drop[of xs m] lk by simp
    with False show ?thesis by (simp add: fit_def m_def)
  qed
qed

lemma combine_list_value:
  assumes "bits p11" "bits p12" "bits p21" "bits p22"
  shows "bits_to_int (combine_list l p11 p12 p21 p22) =
           (bits_to_int p11 * 2 ^ l + (bits_to_int p12 + bits_to_int p21) * 2 ^ (l div 2) +
            bits_to_int p22) mod 2 ^ (l * 2)"
    "bits (combine_list l p11 p12 p21 p22)"
proof -
  have c: "bits (add_list p12 p21)"
    "bits_to_int (add_list p12 p21) = bits_to_int p12 + bits_to_int p21"
    using add_list_value[OF assms(2,3)] by simp_all
  have le: "bits (p11 @ replicate l 0)" "bits (add_list p12 p21 @ replicate (l div 2) 0)"
    using assms(1) c(1) by simp_all
  note m = add_list_value[OF le]
  note f = add_list_value[OF m(2) assms(4)]
  show "bits (combine_list l p11 p12 p21 p22)"
    unfolding combine_list_def using f(2) by (rule fit_value(2))
  show "bits_to_int (combine_list l p11 p12 p21 p22) =
           (bits_to_int p11 * 2 ^ l + (bits_to_int p12 + bits_to_int p21) * 2 ^ (l div 2) +
            bits_to_int p22) mod 2 ^ (l * 2)"
    unfolding combine_list_def fit_value(1)[OF f(2)] f(1) m(1) bits_to_int_shift c(2) ..
qed

lemma length_combine_list [simp]: "length (combine_list l p11 p12 p21 p22) = l * 2"
  by (simp add: combine_list_def)

subsection \<open>The value of \<open>mult_list\<close>\<close>

text \<open>
  For operands of equal length \<open>n \<ge> 2\<close> the result has the value of
  \<open>a1*b1*2\<^sup>n + (a1*b2 + a2*b1)*2\<^bsup>n div 2\<^esup> + a2*b2\<close> modulo \<open>2\<^bsup>2n\<^esup>\<close>, where
  \<open>a1\<close>, \<open>b1\<close> are the values of the first \<open>n div 2\<close> bits and \<open>a2\<close>, \<open>b2\<close> those of the
  remaining bits. For even \<open>n\<close> this is the product.
\<close>

lemma product_bound:
  assumes "bits a" "bits b"
  shows "0 \<le> bits_to_int a * bits_to_int b"
    "bits_to_int a * bits_to_int b < 2 ^ (length a + length b)"
proof -
  note ba = bits_to_int_bounds[OF assms(1)] and bb = bits_to_int_bounds[OF assms(2)]
  show "0 \<le> bits_to_int a * bits_to_int b" using ba bb by simp
  have "bits_to_int a * bits_to_int b < 2 ^ length a * 2 ^ length b"
    using ba bb by (intro mult_strict_mono) simp_all
  then show "bits_to_int a * bits_to_int b < 2 ^ (length a + length b)"
    by (simp add: power_add)
qed

lemma split_product:
  fixes a1 a2 b1 b2 :: int
  shows "(a1 * 2 ^ h + a2) * (b1 * 2 ^ h + b2) =
           a1 * b1 * 2 ^ (h + h) + (a1 * b2 + a2 * b1) * 2 ^ h + a2 * b2"
  by (simp add: algebra_simps power_add)

lemma mult_list_value_aux:
  "length a = length b \<longrightarrow> bits a \<longrightarrow> bits b \<longrightarrow> 0 < length a \<longrightarrow>
     bits (mult_list a b) \<and>
     (1 < length a \<longrightarrow>
        bits_to_int (mult_list a b) =
          (bits_to_int (take (length a div 2) a) * bits_to_int (take (length a div 2) b) * 2 ^ length a +
           (bits_to_int (take (length a div 2) a) * bits_to_int (drop (length a div 2) b) +
            bits_to_int (drop (length a div 2) a) * bits_to_int (take (length a div 2) b)) *
             2 ^ (length a div 2) +
           bits_to_int (drop (length a div 2) a) * bits_to_int (drop (length a div 2) b))
          mod 2 ^ (length a * 2)) \<and>
     (even (length a) \<or> length a = 1 \<longrightarrow>
        bits_to_int (mult_list a b) = bits_to_int a * bits_to_int b)"
proof (induction a b rule: mult_list.induct)
  case (1 a b)
  show ?case
  proof (intro impI)
    assume eq: "length a = length b" and ba: "bits a" and bb: "bits b" and pos: "0 < length a"
    show "bits (mult_list a b) \<and>
     (1 < length a \<longrightarrow>
        bits_to_int (mult_list a b) =
          (bits_to_int (take (length a div 2) a) * bits_to_int (take (length a div 2) b) * 2 ^ length a +
           (bits_to_int (take (length a div 2) a) * bits_to_int (drop (length a div 2) b) +
            bits_to_int (drop (length a div 2) a) * bits_to_int (take (length a div 2) b)) *
             2 ^ (length a div 2) +
           bits_to_int (drop (length a div 2) a) * bits_to_int (drop (length a div 2) b))
          mod 2 ^ (length a * 2)) \<and>
     (even (length a) \<or> length a = 1 \<longrightarrow>
        bits_to_int (mult_list a b) = bits_to_int a * bits_to_int b)"
    proof (cases "1 < length a")
      case False
      with pos eq obtain x y where xy: "a = [x]" "b = [y]"
        by (cases a; cases b; cases "tl a"; cases "tl b") auto
      with ba bb have "x = 0 \<or> x = 1" "y = 0 \<or> y = 1" by simp_all
      then show ?thesis
        using xy by (auto simp: mult_list_base bits_to_int_def)
    next
      case True
      define n where "n = length a"
      define h where "h = n div 2"
      obtain k1 k2 k3 k4 where k: "child_len (length a) (length b) = (k1, k2, k3, k4)"
        by (cases "child_len (length a) (length b)") auto
      have ke: "k2 = k1" "k3 = k1" "k4 = k1" "even k1 \<or> k1 = 1"
        using child_len_equal[OF k[folded eq]] by simp_all
      have kp: "0 < k1" using child_len_pos[OF k True] by simp
      define a1 where "a1 = padded k1 (take (length a div 2) a)"
      define a2 where "a2 = padded k2 (drop (length a div 2) a)"
      define b1 where "b1 = padded k3 (take (length b div 2) b)"
      define b2 where "b2 = padded k4 (drop (length b div 2) b)"
      have len: "length a1 = k1" "length a2 = k1" "length b1 = k1" "length b2 = k1"
        using child_padded_length[OF k] ke by (simp_all add: a1_def a2_def b1_def b2_def)
      have bt: "bits a1" "bits a2" "bits b1" "bits b2"
        using ba bb by (simp_all add: a1_def a2_def b1_def b2_def bits_take bits_drop)
      have val: "bits_to_int a1 = bits_to_int (take h a)" "bits_to_int a2 = bits_to_int (drop h a)"
        "bits_to_int b1 = bits_to_int (take h b)" "bits_to_int b2 = bits_to_int (drop h b)"
        using eq by (simp_all add: a1_def a2_def b1_def b2_def h_def n_def)
      have c11: "bits (mult_list a1 b1)" "bits_to_int (mult_list a1 b1) = bits_to_int a1 * bits_to_int b1"
      proof -
        have e: "length a1 = length b1" "0 < length a1" "even (length a1) \<or> length a1 = 1"
          using len ke(4) kp by simp_all
        note ih = "1.IH"(1)[OF True k[symmetric] refl refl, folded a1_def b1_def]
        from ih e bt show "bits (mult_list a1 b1)" by blast
        from ih e bt show "bits_to_int (mult_list a1 b1) = bits_to_int a1 * bits_to_int b1" by blast
      qed
      have c12: "bits (mult_list a1 b2)" "bits_to_int (mult_list a1 b2) = bits_to_int a1 * bits_to_int b2"
      proof -
        have e: "length a1 = length b2" "0 < length a1" "even (length a1) \<or> length a1 = 1"
          using len ke(4) kp by simp_all
        note ih = "1.IH"(2)[OF True k[symmetric] refl refl, folded a1_def b2_def]
        from ih e bt show "bits (mult_list a1 b2)" by blast
        from ih e bt show "bits_to_int (mult_list a1 b2) = bits_to_int a1 * bits_to_int b2" by blast
      qed
      have c21: "bits (mult_list a2 b1)" "bits_to_int (mult_list a2 b1) = bits_to_int a2 * bits_to_int b1"
      proof -
        have e: "length a2 = length b1" "0 < length a2" "even (length a2) \<or> length a2 = 1"
          using len ke(4) kp by simp_all
        note ih = "1.IH"(3)[OF True k[symmetric] refl refl, folded a2_def b1_def]
        from ih e bt show "bits (mult_list a2 b1)" by blast
        from ih e bt show "bits_to_int (mult_list a2 b1) = bits_to_int a2 * bits_to_int b1" by blast
      qed
      have c22: "bits (mult_list a2 b2)" "bits_to_int (mult_list a2 b2) = bits_to_int a2 * bits_to_int b2"
      proof -
        have e: "length a2 = length b2" "0 < length a2" "even (length a2) \<or> length a2 = 1"
          using len ke(4) kp by simp_all
        note ih = "1.IH"(4)[OF True k[symmetric] refl refl, folded a2_def b2_def]
        from ih e bt show "bits (mult_list a2 b2)" by blast
        from ih e bt show "bits_to_int (mult_list a2 b2) = bits_to_int a2 * bits_to_int b2" by blast
      qed
      have ml: "mult_list a b = combine_list n (mult_list a1 b1) (mult_list a1 b2)
                  (mult_list a2 b1) (mult_list a2 b2)"
        unfolding a1_def a2_def b1_def b2_def n_def by (rule mult_list_rec[OF True k])
      note cv = combine_list_value[OF c11(1) c12(1) c21(1) c22(1), of n]
      have formula: "bits_to_int (mult_list a b) =
          (bits_to_int (take h a) * bits_to_int (take h b) * 2 ^ n +
           (bits_to_int (take h a) * bits_to_int (drop h b) +
            bits_to_int (drop h a) * bits_to_int (take h b)) * 2 ^ h +
           bits_to_int (drop h a) * bits_to_int (drop h b)) mod 2 ^ (n * 2)"
        unfolding ml cv(1) c11(2) c12(2) c21(2) c22(2) val h_def ..
      have prod: "bits_to_int (mult_list a b) = bits_to_int a * bits_to_int b" if "even n"
      proof -
        have nh: "n - h = h" "h + h = n" using that by (auto simp: h_def)
        have sa: "bits_to_int a = bits_to_int (take h a) * 2 ^ h + bits_to_int (drop h a)"
          using bits_to_int_take_drop[of a h] nh by (simp add: n_def)
        have sb: "bits_to_int b = bits_to_int (take h b) * 2 ^ h + bits_to_int (drop h b)"
          using bits_to_int_take_drop[of b h] nh eq by (simp add: n_def)
        have "bits_to_int a * bits_to_int b =
            bits_to_int (take h a) * bits_to_int (take h b) * 2 ^ n +
           (bits_to_int (take h a) * bits_to_int (drop h b) +
            bits_to_int (drop h a) * bits_to_int (take h b)) * 2 ^ h +
           bits_to_int (drop h a) * bits_to_int (drop h b)"
          by (subst sa, subst sb, subst split_product) (simp add: nh)
        moreover have "0 \<le> bits_to_int a * bits_to_int b"
          "bits_to_int a * bits_to_int b < 2 ^ (n * 2)"
          using product_bound[OF ba bb] eq by (simp_all add: n_def mult_2_right)
        ultimately show ?thesis
          unfolding formula by (simp add: mod_pos_pos_trivial)
      qed
      have bm: "bits (mult_list a b)"
        unfolding ml by (rule cv(2))
      show ?thesis
        using bm formula prod True unfolding n_def h_def by auto
    qed
  qed
qed

section \<open>Consequences for \<^verbatim>\<open>binary_mult\<close> in the store\<close>

lemma binary_mult_error:
  assumes "A < nxt s" "B < nxt s" "len s A = 0 \<or> (len s A = 1 \<and> len s B = 0)"
  shows "binary_mult A B s = Inl IndexError"
  using assms by (subst binary_mult.simps) (auto simp: getitem_def)

lemma length_mult_list:
  "1 < length a \<Longrightarrow> length (mult_list a b) = length a * 2"
  by (cases "child_len (length a) (length b)") (simp add: mult_list_rec)

lemma bits_inj:
  assumes "length xs = length ys" "bits xs" "bits ys" "bits_to_int xs = bits_to_int ys"
  shows "xs = ys"
  using assms
proof (induction xs ys rule: list_induct2)
  case Nil
  show ?case by simp
next
  case (Cons x xs y ys)
  then have b: "bits xs" "bits ys" and xy: "x = 0 \<or> x = 1" "y = 0 \<or> y = 1" by simp_all
  note bx = bits_to_int_bounds[OF b(1)] and bys = bits_to_int_bounds[OF b(2)]
  have e: "x * 2 ^ length xs + bits_to_int xs = y * 2 ^ length xs + bits_to_int ys"
    using Cons.prems(3) Cons.hyps by (simp add: bits_to_int_Cons)
  have "x = y"
  proof (rule ccontr)
    assume "x \<noteq> y"
    with xy consider "x = 0" "y = 1" | "x = 1" "y = 0" by auto
    then show False using e bx bys Cons.hyps by cases simp_all
  qed
  with e Cons.IH[OF b] show ?case by simp
qed

lemma int_to_bits_examples: "int_to_bits 5 3 = [1, 0, 1]" "int_to_bits 31 5 = [1, 1, 1, 1, 1]"
  by (simp_all add: int_to_bits_def upt_rec)

lemma binary_mult_value:
  assumes v: "A < nxt s" "B < nxt s" and n: "len s A = n" "len s B = n" "1 < n"
    and b: "bits (heap s A)" "bits (heap s B)"
  shows "\<exists>r s'. binary_mult A B s = Inr (r, s') \<and> bits (heap s' r) \<and> length (heap s' r) = n * 2 \<and>
           bits_to_int (heap s' r) =
             (bits_to_int (take (n div 2) (heap s A)) * bits_to_int (take (n div 2) (heap s B)) * 2 ^ n +
              (bits_to_int (take (n div 2) (heap s A)) * bits_to_int (drop (n div 2) (heap s B)) +
               bits_to_int (drop (n div 2) (heap s A)) * bits_to_int (take (n div 2) (heap s B))) *
                2 ^ (n div 2) +
              bits_to_int (drop (n div 2) (heap s A)) * bits_to_int (drop (n div 2) (heap s B)))
             mod 2 ^ (n * 2)"
proof -
  have l: "length (heap s A) = n" "length (heap s B) = n"
    using n by (simp_all add: len_def)
  have c: "1 < len s A \<or> len s A = 1 \<and> 0 < len s B" using n by simp
  from binary_mult_refines[OF v c] obtain r s' where
    r: "binary_mult A B s = Inr (r, s')" "heap s' r = mult_list (heap s A) (heap s B)"
    by blast
  have "length (heap s A) = length (heap s B)" "0 < length (heap s A)" "1 < length (heap s A)"
    using l n(3) by simp_all
  with mult_list_value_aux[of "heap s A" "heap s B"] b
  have "bits (mult_list (heap s A) (heap s B))"
    "bits_to_int (mult_list (heap s A) (heap s B)) =
             (bits_to_int (take (n div 2) (heap s A)) * bits_to_int (take (n div 2) (heap s B)) * 2 ^ n +
              (bits_to_int (take (n div 2) (heap s A)) * bits_to_int (drop (n div 2) (heap s B)) +
               bits_to_int (drop (n div 2) (heap s A)) * bits_to_int (take (n div 2) (heap s B))) *
                2 ^ (n div 2) +
              bits_to_int (drop (n div 2) (heap s A)) * bits_to_int (drop (n div 2) (heap s B)))
             mod 2 ^ (n * 2)"
    unfolding l by blast+
  moreover have "length (mult_list (heap s A) (heap s B)) = n * 2"
    using length_mult_list[of "heap s A" "heap s B"] l n(3) by simp
  ultimately show ?thesis using r by simp
qed

lemma binary_mult_product:
  assumes v: "A < nxt s" "B < nxt s" and n: "len s A = len s B" "even (len s A) \<and> 0 < len s A \<or> len s A = 1"
    and b: "bits (heap s A)" "bits (heap s B)"
  shows "\<exists>r s'. binary_mult A B s = Inr (r, s') \<and>
           bits_to_int (heap s' r) = bits_to_int (heap s A) * bits_to_int (heap s B)"
proof -
  have c: "1 < len s A \<or> len s A = 1 \<and> 0 < len s B" using n by auto
  from binary_mult_refines[OF v c] obtain r s' where
    r: "binary_mult A B s = Inr (r, s')" "heap s' r = mult_list (heap s A) (heap s B)"
    by blast
  have "length (heap s A) = length (heap s B)" "0 < length (heap s A)"
    "even (length (heap s A)) \<or> length (heap s A) = 1"
    using n by (auto simp: len_def)
  with mult_list_value_aux[of "heap s A" "heap s B"] b
  have "bits_to_int (mult_list (heap s A) (heap s B)) = bits_to_int (heap s A) * bits_to_int (heap s B)"
    by blast
  with r show ?thesis by simp
qed

lemma binary_mult_Inr_valid:
  assumes "binary_mult A B s = Inr (r, s')"
  shows "A < nxt s" "B < nxt s" "1 < len s A \<or> len s A = 1 \<and> 0 < len s B"
proof -
  show v: "A < nxt s" "B < nxt s"
    using assms by (subst (asm) binary_mult.simps, simp split: if_splits)+
  show "1 < len s A \<or> len s A = 1 \<and> 0 < len s B"
  proof (rule ccontr)
    assume "\<not> (1 < len s A \<or> len s A = 1 \<and> 0 < len s B)"
    then have "len s A = 0 \<or> (len s A = 1 \<and> len s B = 0)" by arith
    from binary_mult_error[OF v this] assms show False by simp
  qed
qed

lemma binary_mult_frame:
  assumes "binary_mult A B s = Inr (r, s')"
  shows "frame s s'" "nxt s \<le> r" "r < nxt s'" "heap s' r = mult_list (heap s A) (heap s B)"
  using binary_mult_refines[OF binary_mult_Inr_valid[OF assms]] assms by auto

lemma frame_len: "frame s s' \<Longrightarrow> z < nxt s \<Longrightarrow> len s' z = len s z"
  by (simp add: frame_def len_def)

lemma frame_nxt: "frame s s' \<Longrightarrow> z < nxt s \<Longrightarrow> z < nxt s'"
  by (simp add: frame_def)

lemma calls_invariant:
  assumes c: "calls (A, B, s) (A', B', s')" and e: "len s A = len s B"
  shows "A' < nxt s' \<and> B' < nxt s' \<and> len s' A' = len s' B' \<and>
         (even (len s' A') \<or> len s' A' = 1)"
proof -
  have main: "A' < nxt s' \<and> B' < nxt s' \<and> len s' A' = len s' B' \<and>
         (even (len s' A') \<or> len s' A' = 1)"
    if v: "A < nxt s" "B < nxt s" and l: "1 < len s A"
      and mp: "mult_prepare A B s = (A1, A2, B1, B2, s1)"
      and f: "frame s1 s'" and m: "A' = A1 \<or> A' = A2" "B' = B1 \<or> B' = B2"
    for A1 A2 B1 B2 s1
  proof -
    obtain k1 k2 k3 k4 where k: "child_len (len s A) (len s B) = (k1, k2, k3, k4)"
      by (cases "child_len (len s A) (len s B)") auto
    note p = mult_prepare_props[OF v mp k]
    note ke = child_len_equal[OF k[folded e]]
    have v1: "A1 < nxt s1" "A2 < nxt s1" "B1 < nxt s1" "B2 < nxt s1"
      using p(1-5) by simp_all
    have "len s' A1 = k1" "len s' A2 = k1" "len s' B1 = k1" "len s' B2 = k1"
      using p(6-9) ke v1 by (simp_all add: frame_len[OF f])
    moreover have "A1 < nxt s'" "A2 < nxt s'" "B1 < nxt s'" "B2 < nxt s'"
      using v1 by (simp_all add: frame_nxt[OF f])
    ultimately show ?thesis using m ke by auto
  qed
  from c show ?thesis
  proof (cases rule: calls.cases)
    case (call1 A2 B2)
    from main[OF call1(1-4) frame_refl] show ?thesis by auto
  next
    case (call2 A2 B1 s1 A1B1)
    from main[OF call2(1-4) binary_mult_frame(1)[OF call2(5)]] show ?thesis by auto
  next
    case (call3 A1 B2 s1 A1B1 s2 A1B2)
    have "frame s1 s'"
      using binary_mult_frame(1)[OF call3(5)] binary_mult_frame(1)[OF call3(6)]
      by (rule frame_trans)
    from main[OF call3(1-4) this] show ?thesis by auto
  next
    case (call4 A1 B1 s1 A1B1 s2 A1B2 s3 A2B1)
    have "frame s1 s'"
      using binary_mult_frame(1)[OF call4(5)] binary_mult_frame(1)[OF call4(6)]
        binary_mult_frame(1)[OF call4(7)]
      by (blast intro: frame_trans)
    from main[OF call4(1-4) this] show ?thesis by auto
  qed
qed

lemma binary_mult_length:
  assumes "A < nxt s" "B < nxt s" "1 < len s A"
  shows "\<exists>r s'. binary_mult A B s = Inr (r, s') \<and> length (heap s' r) = 2 * len s A"
proof -
  have c: "1 < len s A \<or> len s A = 1 \<and> 0 < len s B" using assms(3) by simp
  from binary_mult_refines[OF assms(1,2) c] length_mult_list[of "heap s A" "heap s B"] assms(3)
  show ?thesis by (auto simp: len_def)
qed

subsection \<open>One list object passed as both arguments\<close>

text \<open>
  \<^verbatim>\<open>pad_same_length\<close> and \<^verbatim>\<open>binary_add\<close> change their arguments in place, so a call
  that passes the same list object twice behaves differently from a call on two lists
  with the same contents.
\<close>

lemma aliased_pad_example:
  "heap (pad_same_length 0 0 (store_of [[1, 0, 1]])) 0 = [0, 0, 1, 0, 1]"
  "nxt (pad_same_length 0 0 (store_of [[1, 0, 1]])) = 1"
  by (simp_all add: pad_same_length_def Let_def prepend_n_times_def insert0_def len_def
        heap_store_of)

lemma aliased_add_example:
  "\<exists>s'. binary_add 0 0 (store_of [[1, 0, 1]]) = Inr (1, s') \<and>
     heap s' 0 = [0, 0, 1, 0, 1] \<and> heap s' 1 = [1, 0, 1, 0, 0, 0]"
proof -
  define s3 where "s3 = reverse 0 (reverse 0 (pad_same_length 0 0 (store_of [[1, 0, 1]])))"
  have h3: "heap s3 0 = [0, 0, 1, 0, 1]" "nxt s3 = 1"
    by (simp_all add: s3_def reverse_def aliased_pad_example)
  define s4 where "s4 = snd (alloc (replicate (len s3 0) 0) s3)"
  have a: "alloc (replicate (len s3 0) 0) s3 = (1, s4)"
    by (simp add: s4_def alloc_def h3)
  have h4: "heap s4 0 = [0, 0, 1, 0, 1]" "heap s4 1 = [0, 0, 0, 0, 0]"
    by (simp_all add: s4_def alloc_def h3 len_def)
  have l4: "len s4 0 = len s4 0" "len s4 1 = len s4 0" "0 \<le> len s4 0"
    using h4 by (simp_all add: len_def)
  have ne: "(1::nat) \<noteq> 0" by simp
  have ab: "add_bits [0, 0, 1, 0, 1] [0, 0, 1, 0, 1] 0 = ([0, 0, 0, 1, 0], 1)"
    by simp
  have loop: "add_loop 0 0 1 0 0 s4 = Inr (1, put 1 [0, 0, 0, 1, 0] s4)"
    using add_loop_eq[OF ne ne l4, of 0] by (simp only: drop_0 take_0 append_Nil h4 ab fst_conv snd_conv)
  have "binary_add 0 0 (store_of [[1, 0, 1]]) =
          Inr (1, reverse 1 (extend 1 [1] (put 1 [0, 0, 0, 1, 0] s4)))"
    unfolding binary_add_def Let_def s3_def[symmetric] a prod.case loop sum.case by simp
  moreover have "heap (reverse 1 (extend 1 [1] (put 1 [0, 0, 0, 1, 0] s4))) 0 = [0, 0, 1, 0, 1]"
    "heap (reverse 1 (extend 1 [1] (put 1 [0, 0, 0, 1, 0] s4))) 1 = [1, 0, 1, 0, 0, 0]"
    using h4 by (simp_all add: reverse_def extend_def)
  ultimately show ?thesis by blast
qed

section \<open>The claims\<close>

text \<open>
  In the theorems, a list object is an address below \<open>nxt s\<close>, and two list objects
  are two different addresses.
\<close>

text \<open>
  C1. For all \<open>n \<ge> 1\<close> and \<open>a, b < 2\<^sup>n\<close>, the value of \<^verbatim>\<open>binary_mult\<close> on the \<open>n\<close>-bit
  representations of \<open>a\<close> and \<open>b\<close> is \<open>a * b\<close>, also for odd \<open>n\<close> such as 3 and 5.
  The code does not do this for odd \<open>n\<close>: on the 3-bit representations of 5 and 5 it
  returns the value 13, and on the 5-bit representations of 31 and 31 the value 505.
  (For even \<open>n\<close> and for \<open>n = 1\<close> the product is right: lemma \<open>binary_mult_product\<close>.)
\<close>

theorem binary_mult_odd_length_wrong:
  "(\<exists>r s'. binary_mult 0 1 (store_of [int_to_bits 5 3, int_to_bits 5 3]) = Inr (r, s') \<and>
        bits_to_int (heap s' r) = 13 \<and> bits_to_int (heap s' r) \<noteq> 5 * 5) \<and>
   (\<exists>r s'. binary_mult 0 1 (store_of [int_to_bits 31 5, int_to_bits 31 5]) = Inr (r, s') \<and>
        bits_to_int (heap s' r) = 505 \<and> bits_to_int (heap s' r) \<noteq> 31 * 31)"
proof -
  have 3: "0 < nxt (store_of [[1, 0, 1], [1, 0, 1]])" "1 < nxt (store_of [[1, 0, 1], [1, 0, 1]])"
    "len (store_of [[1, 0, 1], [1, 0, 1]]) 0 = 3" "len (store_of [[1, 0, 1], [1, 0, 1]]) 1 = 3" "1 < (3::nat)"
    "bits (heap (store_of [[1, 0, 1], [1, 0, 1]]) 0)" "bits (heap (store_of [[1, 0, 1], [1, 0, 1]]) 1)"
    by (simp_all add: len_def)
  have 5: "0 < nxt (store_of [[1, 1, 1, 1, 1], [1, 1, 1, 1, 1]])" "1 < nxt (store_of [[1, 1, 1, 1, 1], [1, 1, 1, 1, 1]])"
    "len (store_of [[1, 1, 1, 1, 1], [1, 1, 1, 1, 1]]) 0 = 5" "len (store_of [[1, 1, 1, 1, 1], [1, 1, 1, 1, 1]]) 1 = 5" "1 < (5::nat)"
    "bits (heap (store_of [[1, 1, 1, 1, 1], [1, 1, 1, 1, 1]]) 0)" "bits (heap (store_of [[1, 1, 1, 1, 1], [1, 1, 1, 1, 1]]) 1)"
    by (simp_all add: len_def)
  from binary_mult_value[OF 3] obtain r3 s3 where
    r3: "binary_mult 0 1 (store_of [[1, 0, 1], [1, 0, 1]]) = Inr (r3, s3)"
      "bits_to_int (heap s3 r3) = 13"
    by (auto simp: bits_to_int_def)
  from binary_mult_value[OF 5] obtain r5 s5 where
    r5: "binary_mult 0 1 (store_of [[1, 1, 1, 1, 1], [1, 1, 1, 1, 1]]) = Inr (r5, s5)"
      "bits_to_int (heap s5 r5) = 505"
    by (auto simp: bits_to_int_def)
  show ?thesis
    unfolding int_to_bits_examples using r3 r5 by simp
qed

text \<open>
  C2. \<^verbatim>\<open>binary_mult([0,1,1],[1,0,0])\<close> returns \<^verbatim>\<open>[0,0,1,1,0,0]\<close>, the value 12. The code
  returns \<^verbatim>\<open>[0,0,0,1,1,0]\<close>, the value 6.
\<close>

theorem binary_mult_docstring_example:
  "\<exists>r s'. binary_mult 0 1 (store_of [[0, 1, 1], [1, 0, 0]]) = Inr (r, s') \<and>
      heap s' r = [0, 0, 0, 1, 1, 0] \<and> heap s' r \<noteq> [0, 0, 1, 1, 0, 0]"
proof -
  have 3: "0 < nxt (store_of [[0, 1, 1], [1, 0, 0]])" "1 < nxt (store_of [[0, 1, 1], [1, 0, 0]])"
    "len (store_of [[0, 1, 1], [1, 0, 0]]) 0 = 3" "len (store_of [[0, 1, 1], [1, 0, 0]]) 1 = 3" "1 < (3::nat)"
    "bits (heap (store_of [[0, 1, 1], [1, 0, 0]]) 0)" "bits (heap (store_of [[0, 1, 1], [1, 0, 0]]) 1)"
    by (simp_all add: len_def)
  from binary_mult_value[OF 3] obtain r s' where
    r: "binary_mult 0 1 (store_of [[0, 1, 1], [1, 0, 0]]) = Inr (r, s')" "bits (heap s' r)"
      "length (heap s' r) = 6" "bits_to_int (heap s' r) = 6"
    by (auto simp: bits_to_int_def)
  have "heap s' r = [0, 0, 0, 1, 1, 0]"
    using r(2,3,4) by (intro bits_inj) (simp_all add: bits_to_int_def)
  with r(1) show ?thesis by simp
qed

text \<open>
  C3. For equal-length inputs of length \<open>n \<ge> 1\<close> the list returned by \<^verbatim>\<open>binary_mult\<close> has
  length \<open>2 * n\<close>, also in the base case \<open>n = 1\<close>. In the base case the code returns a
  list of length 1. (For \<open>n \<ge> 2\<close> the length is \<open>2 * n\<close>: lemma \<open>binary_mult_length\<close>.)
\<close>

theorem binary_mult_base_case_length:
  "\<exists>r s'. binary_mult 0 1 (store_of [[1], [1]]) = Inr (r, s') \<and> heap s' r = [1] \<and>
      length (heap s' r) \<noteq> 2 * len (store_of [[1], [1]]) 0"
proof -
  have v: "0 < nxt (store_of [[1], [1]])" "1 < nxt (store_of [[1], [1]])"
    "1 < len (store_of [[1], [1]]) 0 \<or> len (store_of [[1], [1]]) 0 = 1 \<and> 0 < len (store_of [[1], [1]]) 1"
    by (simp_all add: len_def)
  from binary_mult_refines[OF v] show ?thesis
    by (auto simp: mult_list_base len_def)
qed

text \<open>
  C4, as stated, fails: a call of \<^verbatim>\<open>binary_mult\<close> with lists of unequal length, or with
  an empty second list, can return a list without any error.
\<close>

theorem binary_mult_unequal_lengths_return:
  "len (store_of [[1], [1, 0]]) 0 \<noteq> len (store_of [[1], [1, 0]]) 1 \<and>
   (\<exists>r s'. binary_mult 0 1 (store_of [[1], [1, 0]]) = Inr (r, s') \<and> heap s' r = [1]) \<and>
   len (store_of [[1, 1], []]) 1 = 0 \<and>
   (\<exists>r s'. binary_mult 0 1 (store_of [[1, 1], []]) = Inr (r, s'))"
proof -
  have v: "0 < nxt (store_of [[1], [1, 0]])" "1 < nxt (store_of [[1], [1, 0]])"
    "1 < len (store_of [[1], [1, 0]]) 0 \<or>
     len (store_of [[1], [1, 0]]) 0 = 1 \<and> 0 < len (store_of [[1], [1, 0]]) 1"
    by (simp_all add: len_def)
  have w: "0 < nxt (store_of [[1, 1], []])" "1 < nxt (store_of [[1, 1], []])"
    "1 < len (store_of [[1, 1], []]) 0 \<or>
     len (store_of [[1, 1], []]) 0 = 1 \<and> 0 < len (store_of [[1, 1], []]) 1"
    by (simp_all add: len_def)
  from binary_mult_refines[OF v] binary_mult_refines[OF w] show ?thesis
    by (auto simp: mult_list_base len_def)
qed

text \<open>
  C4, amended. \<^verbatim>\<open>binary_mult\<close> does not check its precondition. A call fails, with the
  IndexError of reading \<^verbatim>\<open>A[0]\<close> or \<^verbatim>\<open>B[0]\<close>, exactly when \<open>A\<close> is empty, or \<open>A\<close> has
  length 1 and \<open>B\<close> is empty; every other call returns a list, whether or not the
  lengths are equal.
\<close>

theorem binary_mult_error_iff:
  assumes "A < nxt s" "B < nxt s"
  shows "(binary_mult A B s = Inl IndexError \<longleftrightarrow> len s A = 0 \<or> (len s A = 1 \<and> len s B = 0)) \<and>
         ((\<exists>r s'. binary_mult A B s = Inr (r, s')) \<longleftrightarrow> 1 < len s A \<or> (len s A = 1 \<and> 0 < len s B))"
proof (cases "len s A = 0 \<or> (len s A = 1 \<and> len s B = 0)")
  case True
  from binary_mult_error[OF assms True] True show ?thesis by auto
next
  case False
  then have c: "1 < len s A \<or> len s A = 1 \<and> 0 < len s B" by arith
  from binary_mult_refines[OF assms c] False c show ?thesis by auto
qed

theorem binary_mult_error_iff_witness:
  "0 < nxt (store_of [[], []]) \<and> 1 < nxt (store_of [[], []]) \<and>
   len (store_of [[], []]) 0 = 0 \<and> binary_mult 0 1 (store_of [[], []]) = Inl IndexError \<and>
   0 < nxt (store_of [[1, 0], [1]]) \<and> 1 < nxt (store_of [[1, 0], [1]]) \<and>
   1 < len (store_of [[1, 0], [1]]) 0 \<and>
   (\<exists>r s'. binary_mult 0 1 (store_of [[1, 0], [1]]) = Inr (r, s'))"
proof -
  have v: "0 < nxt (store_of [[], []])" "1 < nxt (store_of [[], []])"
    and l: "len (store_of [[], []]) 0 = 0"
    by (simp_all add: len_def)
  have w: "0 < nxt (store_of [[1, 0], [1]])" "1 < nxt (store_of [[1, 0], [1]])"
    and m: "1 < len (store_of [[1, 0], [1]]) 0"
    by (simp_all add: len_def)
  from binary_mult_error_iff[OF v] binary_mult_error_iff[OF w] v l w m show ?thesis
    by blast
qed

text \<open>
  C5, as stated, fails: when the same list object is passed as both arguments, the
  value of the returned list is not the sum. For \<^verbatim>\<open>X = [1,0,1]\<close>, \<^verbatim>\<open>binary_add(X, X)\<close>
  returns \<^verbatim>\<open>[1,0,1,0,0,0]\<close>, the value 40, not 10.
\<close>

theorem binary_add_same_object_value:
  "\<exists>r s'. binary_add 0 0 (store_of [[1, 0, 1]]) = Inr (r, s') \<and>
     bits_to_int (heap s' r) = 40 \<and>
     bits_to_int (heap s' r) \<noteq>
       bits_to_int (heap (store_of [[1, 0, 1]]) 0) + bits_to_int (heap (store_of [[1, 0, 1]]) 0)"
proof -
  from aliased_add_example obtain s' where
    s: "binary_add 0 0 (store_of [[1, 0, 1]]) = Inr (1, s')" "heap s' 1 = [1, 0, 1, 0, 0, 0]"
    by blast
  have "bits_to_int (heap s' 1) = 40"
    "bits_to_int (heap (store_of [[1, 0, 1]]) 0) + bits_to_int (heap (store_of [[1, 0, 1]]) 0) = 10"
    using s(2) by (simp_all add: bits_to_int_def heap_store_of)
  with s(1) show ?thesis by simp
qed

text \<open>
  C5, amended. For two different list objects \<open>X\<close> and \<open>Y\<close> that hold bit sequences of
  any lengths, \<^verbatim>\<open>binary_add(X, Y)\<close> returns a list whose value is the value of \<open>X\<close> plus
  the value of \<open>Y\<close> (values read before the call, most significant bit first).
\<close>

theorem binary_add_value:
  assumes "X \<noteq> Y" "X < nxt s" "Y < nxt s" "bits (heap s X)" "bits (heap s Y)"
  shows "\<exists>r s'. binary_add X Y s = Inr (r, s') \<and>
           bits_to_int (heap s' r) = bits_to_int (heap s X) + bits_to_int (heap s Y)"
  using add_list_value(1)[OF assms(4,5)] by (simp add: binary_add_eq[OF assms(1-3)])

theorem binary_add_value_witness:
  "(0::nat) \<noteq> 1 \<and> 0 < nxt (store_of [[1, 1, 1], [1]]) \<and> 1 < nxt (store_of [[1, 1, 1], [1]]) \<and>
   bits (heap (store_of [[1, 1, 1], [1]]) 0) \<and> bits (heap (store_of [[1, 1, 1], [1]]) 1) \<and>
   (\<exists>r s'. binary_add 0 1 (store_of [[1, 1, 1], [1]]) = Inr (r, s') \<and>
      bits_to_int (heap s' r) = 8)"
proof -
  have 1: "(0::nat) \<noteq> 1" "0 < nxt (store_of [[1, 1, 1], [1]])" "1 < nxt (store_of [[1, 1, 1], [1]])"
    "bits (heap (store_of [[1, 1, 1], [1]]) 0)" "bits (heap (store_of [[1, 1, 1], [1]]) 1)"
    by simp_all
  have 2: "bits_to_int (heap (store_of [[1, 1, 1], [1]]) 0) + bits_to_int (heap (store_of [[1, 1, 1], [1]]) 1) = 8"
    by (simp add: bits_to_int_def)
  from binary_add_value[OF 1] 1 show ?thesis
    unfolding 2 by blast
qed

text \<open>
  C6. In every recursive invocation of \<^verbatim>\<open>binary_mult\<close> reached from an invocation on two
  lists of equal length, the two operands have equal length, and that length is even
  or equal to 1.
\<close>

theorem recursive_calls_equal_even:
  assumes "len s A = len s B" "calls\<^sup>+\<^sup>+ (A, B, s) (A', B', s')"
  shows "len s' A' = len s' B' \<and> (even (len s' A') \<or> len s' A' = 1)"
proof -
  have "\<forall>A' B' s'. c = (A', B', s') \<longrightarrow>
          len s' A' = len s' B' \<and> (even (len s' A') \<or> len s' A' = 1)"
    if "calls\<^sup>+\<^sup>+ (A, B, s) c" for c
    using that
  proof (induction rule: tranclp_induct)
    case (base c)
    obtain A' B' s' where c: "c = (A', B', s')" by (cases c) auto
    from calls_invariant[OF base[unfolded c] assms(1)] c show ?case by auto
  next
    case (step c d)
    obtain A1 B1 s1 where c: "c = (A1, B1, s1)" by (cases c) auto
    obtain A' B' s' where d: "d = (A', B', s')" by (cases d) auto
    from step.IH c have "len s1 A1 = len s1 B1" by simp
    from calls_invariant[OF step.hyps(2)[unfolded c d] this] d show ?case by auto
  qed
  with assms(2) show ?thesis by blast
qed

theorem recursive_calls_equal_even_witness:
  "len (store_of [[1, 1, 0], [0, 1, 1]]) 0 = len (store_of [[1, 1, 0], [0, 1, 1]]) 1 \<and>
   calls\<^sup>+\<^sup>+ (0, 1, store_of [[1, 1, 0], [0, 1, 1]])
     (2, 4, snd (snd (snd (snd (mult_prepare 0 1 (store_of [[1, 1, 0], [0, 1, 1]])))))) \<and>
   len (snd (snd (snd (snd (mult_prepare 0 1 (store_of [[1, 1, 0], [0, 1, 1]])))))) 2 =
   len (snd (snd (snd (snd (mult_prepare 0 1 (store_of [[1, 1, 0], [0, 1, 1]])))))) 4"
proof -
  let ?s = "store_of [[1, 1, 0], [0, 1, 1]]"
  let ?s1 = "snd (snd (snd (snd (mult_prepare 0 1 ?s))))"
  have v: "0 < nxt ?s" "1 < nxt ?s" "1 < len ?s 0"
    by (simp_all add: len_def)
  have e: "len ?s 0 = len ?s 1"
    by (simp add: len_def)
  obtain A1 A2 B1 B2 s1 where p: "mult_prepare 0 1 ?s = (A1, A2, B1, B2, s1)"
    by (cases "mult_prepare 0 1 ?s") auto
  obtain k1 k2 k3 k4 where k: "child_len (len ?s 0) (len ?s 1) = (k1, k2, k3, k4)"
    by (cases "child_len (len ?s 0) (len ?s 1)") auto
  have "A1 = 2" "A2 = 3" "B1 = 4" "B2 = 5"
    using mult_prepare_props(1-4)[OF v(1,2) p k] by simp_all
  with p have mp: "mult_prepare 0 1 ?s = (2, 3, 4, 5, ?s1)"
    by simp
  have c: "calls\<^sup>+\<^sup>+ (0, 1, ?s) (2, 4, ?s1)"
    by (rule tranclp.r_into_trancl) (rule call1[OF v mp])
  from recursive_calls_equal_even[OF e c] e c show ?thesis by blast
qed

text \<open>
  C7. For two lists \<open>A\<close> and \<open>B\<close> of equal length at least 1, \<^verbatim>\<open>binary_mult(A, B)\<close> returns
  and leaves the contents of the caller's lists \<open>A\<close> and \<open>B\<close> as they were.
\<close>

theorem binary_mult_preserves_arguments:
  assumes "A < nxt s" "B < nxt s" "len s A = len s B" "0 < len s A"
  shows "\<exists>r s'. binary_mult A B s = Inr (r, s') \<and> heap s' A = heap s A \<and> heap s' B = heap s B"
proof -
  have c: "1 < len s A \<or> len s A = 1 \<and> 0 < len s B" using assms(3,4) by arith
  from binary_mult_refines[OF assms(1,2) c] assms(1,2) show ?thesis
    by (auto simp: frame_def)
qed

theorem binary_mult_preserves_arguments_witness:
  "0 < nxt (store_of [[1, 0, 1], [0, 1, 1]]) \<and> 1 < nxt (store_of [[1, 0, 1], [0, 1, 1]]) \<and>
   len (store_of [[1, 0, 1], [0, 1, 1]]) 0 = len (store_of [[1, 0, 1], [0, 1, 1]]) 1 \<and>
   0 < len (store_of [[1, 0, 1], [0, 1, 1]]) 0 \<and>
   (\<exists>r s'. binary_mult 0 1 (store_of [[1, 0, 1], [0, 1, 1]]) = Inr (r, s') \<and>
      heap s' 0 = [1, 0, 1] \<and> heap s' 1 = [0, 1, 1])"
proof -
  have v: "0 < nxt (store_of [[1, 0, 1], [0, 1, 1]])" "1 < nxt (store_of [[1, 0, 1], [0, 1, 1]])"
    "len (store_of [[1, 0, 1], [0, 1, 1]]) 0 = len (store_of [[1, 0, 1], [0, 1, 1]]) 1"
    "0 < len (store_of [[1, 0, 1], [0, 1, 1]]) 0"
    by (simp_all add: len_def)
  from binary_mult_preserves_arguments[OF v] v show ?thesis
    by simp
qed

text \<open>
  C8, as stated, fails: when the same list object is passed as both arguments and its
  length is odd and not 1, line 76 and line 77 each insert a zero into the one object,
  and the length stays odd. For \<^verbatim>\<open>X = [1,0,1]\<close>, \<^verbatim>\<open>pad_same_length(X, X)\<close> leaves
  \<^verbatim>\<open>[0,0,1,0,1]\<close>, of length 5.
\<close>

theorem pad_same_length_same_object:
  "len (pad_same_length 0 0 (store_of [[1, 0, 1]])) 0 = 5 \<and>
   \<not> (even (len (pad_same_length 0 0 (store_of [[1, 0, 1]])) 0) \<or>
      len (pad_same_length 0 0 (store_of [[1, 0, 1]])) 0 = 1)"
  by (simp add: len_def aliased_pad_example)

text \<open>
  C8, amended. For two different list objects \<open>X\<close> and \<open>Y\<close>, after
  \<^verbatim>\<open>pad_same_length(X, Y)\<close> both have the same length, that length is even or equal
  to 1, it is the larger of the two original lengths or one more, and each list is its
  original contents with zeros prepended.
\<close>

theorem pad_same_length_spec:
  assumes "X \<noteq> Y"
  shows "len (pad_same_length X Y s) X = len (pad_same_length X Y s) Y \<and>
         (even (len (pad_same_length X Y s) X) \<or> len (pad_same_length X Y s) X = 1) \<and>
         max (len s X) (len s Y) \<le> len (pad_same_length X Y s) X \<and>
         len (pad_same_length X Y s) X \<le> max (len s X) (len s Y) + 1 \<and>
         heap (pad_same_length X Y s) X =
           replicate (len (pad_same_length X Y s) X - len s X) 0 @ heap s X \<and>
         heap (pad_same_length X Y s) Y =
           replicate (len (pad_same_length X Y s) Y - len s Y) 0 @ heap s Y"
proof -
  define q where "q = evenup (max (len s X) (len s Y))"
  have q: "len s X \<le> q" "len s Y \<le> q"
    unfolding q_def
    by (rule order_trans[OF max.cobounded1 evenup_ge] order_trans[OF max.cobounded2 evenup_ge])+
  have h: "heap (pad_same_length X Y s) X = padded q (heap s X)"
    "heap (pad_same_length X Y s) Y = padded q (heap s Y)"
    using assms by (simp_all add: pad_same_length_padded q_def)
  have l: "len (pad_same_length X Y s) X = q" "len (pad_same_length X Y s) Y = q"
    using q by (simp_all add: len_def h length_padded)
  have "even q \<or> q = 1" unfolding q_def by (rule evenup_even)
  moreover have "max (len s X) (len s Y) \<le> q" "q \<le> max (len s X) (len s Y) + 1"
    unfolding q_def by (rule evenup_ge evenup_le)+
  ultimately show ?thesis
    unfolding l h by (simp add: padded_def len_def)
qed

theorem pad_same_length_spec_witness:
  "(0::nat) \<noteq> 1 \<and>
   len (pad_same_length 0 1 (store_of [[1], [1, 0, 1]])) 0 =
     len (pad_same_length 0 1 (store_of [[1], [1, 0, 1]])) 1 \<and>
   (even (len (pad_same_length 0 1 (store_of [[1], [1, 0, 1]])) 0) \<or>
    len (pad_same_length 0 1 (store_of [[1], [1, 0, 1]])) 0 = 1) \<and>
   heap (pad_same_length 0 1 (store_of [[1], [1, 0, 1]])) 0 =
     replicate (len (pad_same_length 0 1 (store_of [[1], [1, 0, 1]])) 0 -
                len (store_of [[1], [1, 0, 1]]) 0) 0 @ heap (store_of [[1], [1, 0, 1]]) 0"
proof -
  have 1: "(0::nat) \<noteq> 1" by simp
  from pad_same_length_spec[OF 1, of "store_of [[1], [1, 0, 1]]"] 1 show ?thesis
    by blast
qed

text \<open>
  C9. When \<open>X\<close> and \<open>Y\<close> already have the same length and that length is even or
  equal to 1, \<^verbatim>\<open>pad_same_length(X, Y)\<close> changes nothing: the store after the call is the
  store before it.
\<close>

theorem pad_same_length_noop:
  assumes "len s X = len s Y" "even (len s X) \<or> len s X = 1"
  shows "pad_same_length X Y s = s"
  using assms by (auto simp: pad_same_length_def Let_def prepend_n_times_def)

theorem pad_same_length_noop_witness:
  "len (store_of [[1, 0], [0, 1]]) 0 = len (store_of [[1, 0], [0, 1]]) 1 \<and>
   (even (len (store_of [[1, 0], [0, 1]]) 0) \<or> len (store_of [[1, 0], [0, 1]]) 0 = 1) \<and>
   pad_same_length 0 1 (store_of [[1, 0], [0, 1]]) = store_of [[1, 0], [0, 1]]"
proof -
  have 1: "len (store_of [[1, 0], [0, 1]]) 0 = len (store_of [[1, 0], [0, 1]]) 1"
    by (simp add: len_def)
  have 2: "even (len (store_of [[1, 0], [0, 1]]) 0) \<or> len (store_of [[1, 0], [0, 1]]) 0 = 1"
    by (simp add: len_def)
  from pad_same_length_noop[OF 1 2] 1 2 show ?thesis by blast
qed




end
